theory Spec2Isabelle
  imports Complex_Main
begin

chapter \<open>The model\<close>

section \<open>JavaScript strings and errors\<close>

text \<open>
  A string is a list of characters, and the character \<open>CHR n\<close> is the code unit \<open>n\<close>: the
  strings of the model are the JavaScript strings whose code units are below \<open>256\<close>.
  Strings with higher code units are outside the model.

  On these strings \<open>trim\<close> is \<open>String.prototype.trim\<close>: it strips white space and line
  terminators from both ends, and the seven of them below \<open>256\<close> are tab, line feed,
  vertical tab, form feed, carriage return, space and the no-break space \<open>U+00A0\<close>.
  \<open>toLowerCase\<close> is \<open>String.prototype.toLowerCase\<close>: it maps the letters \<open>A\<close> to \<open>Z\<close> and
  the capital letters \<open>U+00C0\<close> to \<open>U+00DE\<close>, without the multiplication sign \<open>U+00D7\<close>, to
  the letters \<open>32\<close> code units above them and leaves every other character as it is.
  \<open>orEmpty v\<close> is the expression \<open>String(v || "")\<close> for a value \<open>v\<close> that is a string or
  \<open>undefined\<close>.
\<close>

definition isWhiteSpace :: "char \<Rightarrow> bool" where
  "isWhiteSpace c \<longleftrightarrow>
     c \<in> set [CHR 0x09, CHR 0x0A, CHR 0x0B, CHR 0x0C, CHR 0x0D, CHR '' '', CHR 0xA0]"

definition trim :: "string \<Rightarrow> string" where
  "trim s = rev (dropWhile isWhiteSpace (rev (dropWhile isWhiteSpace s)))"






text \<open>
  Every \<open>throw\<close> that the modelled functions can reach is one constructor of \<open>error\<close>. The
  source raises plain \<open>Error\<close> objects that differ in their message only; \<open>TypeError\<close> is
  raised by the engine:
  \<^item> \<open>TypeError\<close>: a method is called on \<open>undefined\<close> or \<open>null\<close>;
  \<^item> \<open>BaseFolderNameMissing\<close>: ``Base folder name is missing -- cannot resolve league row in
    master sheet.''
  \<^item> \<open>HttpError status url\<close>: ``HTTP status while fetching url'', raised by \<open>fetchText\<close>
    when the response is not ok;
  \<^item> \<open>FetchRejected\<close>: the rejection of \<open>fetch\<close> itself (the resource is unreachable);
  \<^item> \<open>MasterSheetEmpty\<close>: ``Master league sheet is empty.''
  \<^item> \<open>LeagueNotFound name\<close>: ``League "name" not found or URLs missing in master league
    sheet.''
\<close>

datatype error =
    TypeError
  | BaseFolderNameMissing
  | HttpError nat string
  | FetchRejected
  | MasterSheetEmpty
  | LeagueNotFound string


section \<open>Header-indexed row accessor (logoHandler.js, createHeaderMap and getValue)\<close>

text \<open>
  A parsed row is a list of cells. The header map is the JavaScript object that
  \<open>createHeaderMap\<close> fills with \<open>headerMap[headerRow[i]] = i\<close> for \<open>i\<close> from \<open>0\<close>
  upwards, so that a later occurrence of a repeated column name overwrites an earlier one.
  The object is a plain object: assigning a number to its property \<open>__proto__\<close> changes
  nothing, and the properties it inherits from \<open>Object.prototype\<close> are functions or
  objects, never numbers, so that \<open>getValue\<close> treats them as absent. The map therefore
  holds exactly the numeric properties of the object.
  Reading \<open>row[idx]\<close> past the end of the row gives \<open>undefined\<close> in JavaScript; the result
  of \<open>getValue\<close> is therefore a \<open>string option\<close>, with \<open>None\<close> standing for \<open>undefined\<close>.
\<close>

type_synonym headerMap = "string \<rightharpoonup> nat"

definition headerAssign :: "string list \<Rightarrow> headerMap \<Rightarrow> nat \<Rightarrow> headerMap" where
  "headerAssign headerRow headerMap i =
     (if headerRow ! i = ''__proto__'' then headerMap else headerMap(headerRow ! i \<mapsto> i))"

definition createHeaderMap :: "string list \<Rightarrow> headerMap" where
  "createHeaderMap headerRow = foldl (headerAssign headerRow) Map.empty [0..<length headerRow]"

definition getValue :: "string list \<Rightarrow> string \<Rightarrow> headerMap \<Rightarrow> string option" where
  "getValue row columnName headerMap =
     (case headerMap columnName of
        Some idx \<Rightarrow> (if idx < length row then Some (row ! idx) else None)
      | None \<Rightarrow> Some [])"


section \<open>Balanced chunk partitioner (standings.js, handleStandingsUpdate)\<close>

text \<open>
  The standings of one division are split into display chunks of at most
  \<open>MAX_TEAMS_PER_CHUNK\<close> teams. The source fixes the maximum at \<open>9\<close>; the model takes it as
  the first argument of \<open>chunkStandings\<close> so that the partitioner can be studied for every
  maximum of at least one. \<open>slice\<close> is \<open>Array.prototype.slice\<close> on two non-negative indices:
  it clamps at the end of the array. \<open>Math.ceil\<close> is applied to a quotient of two array
  lengths; the double-precision quotient of two integers below \<open>2^53\<close> has the same ceiling
  as the exact quotient, so the model computes the ceiling of the exact quotient.
\<close>

definition slice :: "'a list \<Rightarrow> nat \<Rightarrow> nat \<Rightarrow> 'a list" where
  "slice xs startIndex endIndex = drop startIndex (take endIndex xs)"

definition Math_ceil :: "real \<Rightarrow> int" where
  "Math_ceil x = \<lceil>x\<rceil>"

definition MAX_TEAMS_PER_CHUNK :: nat where
  "MAX_TEAMS_PER_CHUNK = 9"

function chunkLoop :: "'a list \<Rightarrow> nat \<Rightarrow> nat \<Rightarrow> nat \<Rightarrow> nat \<Rightarrow> 'a list list \<Rightarrow> 'a list list" where
  "chunkLoop standings numChunks chunkSize c startIndex chunks =
     (if c < numChunks then
        (let isLast = (c = numChunks - 1);
             endIndex = (if isLast then length standings else startIndex + chunkSize);
             chunk = slice standings startIndex endIndex
         in chunkLoop standings numChunks chunkSize (c + 1) endIndex
              (if length chunk \<noteq> 0 then chunks @ [chunk] else chunks))
      else chunks)"
  by pat_completeness auto
termination
  by (relation "measure (\<lambda>(standings, numChunks, chunkSize, c, startIndex, chunks). numChunks - c)") auto

definition chunkStandings :: "nat \<Rightarrow> 'a list \<Rightarrow> 'a list list" where
  "chunkStandings maxTeamsPerChunk standings =
     (let numOfTeams = length standings in
      if numOfTeams \<le> maxTeamsPerChunk then [standings]
      else
        (let numChunks = nat (Math_ceil (real numOfTeams / real maxTeamsPerChunk));
             chunkSize = nat (Math_ceil (real numOfTeams / real numChunks))
         in chunkLoop standings numChunks chunkSize 0 0 []))"


section \<open>Tabular parser (logoHandler.js, parseCSV)\<close>

text \<open>
  \<open>splitOn\<close> is \<open>String.prototype.split\<close> with a one-character separator: it always returns
  at least one piece, and a trailing separator gives a trailing empty piece.
\<close>

primrec splitOn :: "char \<Rightarrow> string \<Rightarrow> string list" where
  "splitOn sep [] = [[]]"
| "splitOn sep (c # cs) =
     (if c = sep then [] # splitOn sep cs
      else (case splitOn sep cs of
              [] \<Rightarrow> [[c]]
            | piece # pieces \<Rightarrow> (c # piece) # pieces))"

text \<open>
  The inner loop of \<open>parseCSV\<close> reads one line character by character and carries three
  variables: the cells finished so far (\<open>csvArray\<close>), the cell being read (\<open>currentValue\<close>)
  and the quote flag (\<open>inQuotes\<close>). A quote character only toggles the flag and is not
  copied into the cell; a comma seen while the flag is off closes the cell.
\<close>

abbreviation quoteChar :: char where
  "quoteChar \<equiv> CHR 0x22"

abbreviation commaChar :: char where
  "commaChar \<equiv> CHR '',''"

abbreviation lineFeed :: char where
  "lineFeed \<equiv> CHR 0x0A"

abbreviation carriageReturn :: char where
  "carriageReturn \<equiv> CHR 0x0D"

fun parseChar :: "string list \<times> string \<times> bool \<Rightarrow> char \<Rightarrow> string list \<times> string \<times> bool" where
  "parseChar (csvArray, currentValue, inQuotes) ch =
     (if ch = quoteChar then (csvArray, currentValue, \<not> inQuotes)
      else if ch = commaChar \<and> \<not> inQuotes then (csvArray @ [trim currentValue], [], inQuotes)
      else (csvArray, currentValue @ [ch], inQuotes))"

definition parseLine :: "string \<Rightarrow> string list" where
  "parseLine line =
     (case foldl parseChar ([], [], False) line of
        (csvArray, currentValue, inQuotes) \<Rightarrow> csvArray @ [trim currentValue])"

definition parseCSV :: "string \<Rightarrow> string list list" where
  "parseCSV csvContent =
     map parseLine
       (filter (\<lambda>line. trim line \<noteq> [])
          (splitOn lineFeed (filter (\<lambda>c. c \<noteq> carriageReturn) csvContent)))"

text \<open>
  \<open>parseCSV\<close> above is the function on a string argument. \<open>parseCSVOf\<close> is the call on
  any value: the first thing the function does is \<open>csvContent.replace(...)\<close>, which raises
  a \<open>TypeError\<close> when the argument is \<open>undefined\<close> or \<open>null\<close>; no later step can raise.
\<close>

datatype jsValue = JSUndefined | JSNull | JSString string

fun parseCSVOf :: "jsValue \<Rightarrow> error + string list list" where
  "parseCSVOf JSUndefined = Inl TypeError"
| "parseCSVOf JSNull = Inl TypeError"
| "parseCSVOf (JSString csvContent) = Inr (parseCSV csvContent)"

text \<open>
  Modelled from the spec: the repository has no serializer (its tables are fetched as
  published text), and the specification's round-trip property speaks of rows serialized
  so that commas occur only inside quoted fields. \<open>serializeRow\<close> joins the cells with
  commas and wraps a cell in double quotes exactly when the cell contains a comma.
\<close>

definition serializeCell :: "string \<Rightarrow> string" where
  "serializeCell cell =
     (if commaChar \<in> set cell then [quoteChar] @ cell @ [quoteChar] else cell)"

fun serializeRow :: "string list \<Rightarrow> string" where
  "serializeRow [] = []"
| "serializeRow [cell] = serializeCell cell"
| "serializeRow (cell # cells) = serializeCell cell @ [commaChar] @ serializeRow cells"


section \<open>League registry resolver (logoHandler.js, fetchText and getLeagueCsvUrls)\<close>






















section \<open>Join resolver (logoHandler.js, the division loop of loadSchedule)\<close>

text \<open>
  A division record holds the cells that \<open>loadDivisionInfo\<close> reads from one row of the
  division sheet; the rows are taken to have all their cells, so every field is a string.
  The field \<open>div\<close> of the source is \<open>divName\<close> here. The two labels of a schedule row come
  from \<open>getValue\<close> and may be \<open>undefined\<close>, which equals no string.

  The loop keeps six variables, all starting as the empty string. For each division in
  list order it compares both labels with \<open>conf + ' ' + div\<close>; a label is assigned only
  while its abbreviation variable is still falsy (empty), and the loop ends early once
  both abbreviation variables are non-empty.
\<close>

record divisionInfo =
  conf :: string
  divName :: string
  abb :: string
  color1 :: string
  color2 :: string
  divShort :: string

record joinVars =
  div1name :: string
  div1conf :: string
  div1abb :: string
  div2name :: string
  div2conf :: string
  div2abb :: string

definition joinStart :: joinVars where
  "joinStart = \<lparr>div1name = [], div1conf = [], div1abb = [],
                 div2name = [], div2conf = [], div2abb = []\<rparr>"

definition fullNameOf :: "divisionInfo \<Rightarrow> string" where
  "fullNameOf d = conf d @ '' '' @ divName d"

fun joinLoop :: "string option \<Rightarrow> string option \<Rightarrow> divisionInfo list \<Rightarrow> joinVars \<Rightarrow> joinVars" where
  "joinLoop div1Full div2Full [] vars = vars"
| "joinLoop div1Full div2Full (d # divs) vars =
     (let fullName = fullNameOf d;
          vars1 = (if div1abb vars = [] \<and> div1Full = Some fullName
                   then vars\<lparr>div1name := divName d, div1conf := conf d, div1abb := abb d\<rparr>
                   else vars);
          vars2 = (if div2abb vars1 = [] \<and> div2Full = Some fullName
                   then vars1\<lparr>div2name := divName d, div2conf := conf d, div2abb := abb d\<rparr>
                   else vars1)
      in if div1abb vars2 \<noteq> [] \<and> div2abb vars2 \<noteq> [] then vars2
         else joinLoop div1Full div2Full divs vars2)"

definition labelMatches :: "string option \<Rightarrow> divisionInfo \<Rightarrow> bool" where
  "labelMatches label d \<longleftrightarrow> label = Some (fullNameOf d)"

definition joinDivisions :: "string option \<Rightarrow> string option \<Rightarrow> divisionInfo list \<Rightarrow> joinVars" where
  "joinDivisions div1Full div2Full divs = joinLoop div1Full div2Full divs joinStart"

text \<open>
  Two divisions whose \<open>conf + ' ' + div\<close> strings coincide; the first has a blank
  abbreviation cell.
\<close>

definition blankAbbDivision :: divisionInfo where
  "blankAbbDivision = \<lparr>conf = ''East'', divName = ''Coast A'', abb = [],
     color1 = ''ff0000'', color2 = ''000000'', divShort = ''CA''\<rparr>"

definition laterDivision :: divisionInfo where
  "laterDivision = \<lparr>conf = ''East Coast'', divName = ''A'', abb = ''ECA'',
     color1 = ''00ff00'', color2 = ''000000'', divShort = ''A''\<rparr>"


section \<open>Leaderboard selector (handleStatsUpdate, the four top lists of processDivision)\<close>

text \<open>
  A stat line carries the name fields of the source objects; \<open>None\<close> stands for \<open>null\<close> and,
  for \<open>fullName\<close>, for the property that the sentinel objects do not have (\<open>undefined\<close>).
  The field \<open>div\<close> of the source is \<open>divLabel\<close> here. Every comparison of the source goes
  through \<open>Number(...)\<close>; the numeric cells are taken to hold numerals, so the fields are
  numbers: counts are natural numbers, \<open>ppg\<close> and \<open>GAA\<close> are reals. A cell that is not a
  numeral (\<open>NaN\<close>) is not modelled.

  \<open>processDivision\<close> builds the four lists in place, in local arrays; the loop bodies
  and the scan of one slot are defined first, the function itself after them.
\<close>

record statline =
  firstName :: "string option"
  lastName :: "string option"
  teamName :: "string option"
  divLabel :: "string option"
  fullName :: "string option"

record playerStatline = statline +
  goals :: nat
  assists :: nat
  points :: nat
  ppg :: real

record goalieStatline = statline +
  GA :: nat
  GAA :: real
  GP :: nat

definition nullPlayer :: playerStatline where
  "nullPlayer = \<lparr>firstName = None, lastName = None, teamName = None, divLabel = None,
     fullName = None, goals = 0, assists = 0, points = 0, ppg = 0\<rparr>"

definition nullGoalie :: goalieStatline where
  "nullGoalie = \<lparr>firstName = None, lastName = None, teamName = None, divLabel = None,
     fullName = None, GA = 99, GAA = 99, GP = 0\<rparr>"

subsection \<open>Top point scorers\<close>

text \<open>
  The body of the inner loop for slot \<open>m\<close> and candidate \<open>divPlayerStats[n]\<close>: the three
  comparisons with the current holder of the slot, the loop over the earlier slots that
  clears \<open>shouldAssign\<close>, and the assignment. \<open>pointsSlot\<close> is the loop over the pool for one slot.
\<close>

definition pointsStep :: "nat \<Rightarrow> playerStatline list \<Rightarrow> playerStatline \<Rightarrow> playerStatline list" where
  "pointsStep m topPoints cand =
     (let pointsGreater = points cand > points (topPoints ! m);
          pointsEqual = (points cand = points (topPoints ! m));
          goalsGreater = goals cand > goals (topPoints ! m);
          shouldAssign = \<not> list_ex (\<lambda>p. fullName cand = fullName (topPoints ! p)) [0..<m]
      in if shouldAssign \<and> (pointsGreater \<or> (pointsEqual \<and> goalsGreater))
         then topPoints[m := cand] else topPoints)"

definition pointsSlot :: "playerStatline list \<Rightarrow> playerStatline list \<Rightarrow> nat \<Rightarrow> playerStatline list" where
  "pointsSlot divPlayerStats topPoints m = foldl (pointsStep m) topPoints divPlayerStats"

subsection \<open>Top goal scorers and top points per game\<close>

definition goalsStep :: "nat \<Rightarrow> playerStatline list \<Rightarrow> playerStatline \<Rightarrow> playerStatline list" where
  "goalsStep m topGoals cand =
     (if goals cand > goals (topGoals ! m) then
        (if m = 0 then topGoals[m := cand]
         else if m = 1 then
           (if \<not> (fullName cand = fullName (topGoals ! 0)) then topGoals[m := cand] else topGoals)
         else if m = 2 then
           (if \<not> (fullName cand = fullName (topGoals ! 0) \<or> fullName cand = fullName (topGoals ! 1))
            then topGoals[m := cand] else topGoals)
         else topGoals)
      else topGoals)"

definition goalsSlot :: "playerStatline list \<Rightarrow> playerStatline list \<Rightarrow> nat \<Rightarrow> playerStatline list" where
  "goalsSlot divPlayerStats topGoals m = foldl (goalsStep m) topGoals divPlayerStats"

definition ppgStep :: "nat \<Rightarrow> playerStatline list \<Rightarrow> playerStatline \<Rightarrow> playerStatline list" where
  "ppgStep m topPPG cand =
     (if ppg cand > ppg (topPPG ! m) then
        (if m = 0 then topPPG[m := cand]
         else if m = 1 then
           (if \<not> (fullName cand = fullName (topPPG ! 0)) then topPPG[m := cand] else topPPG)
         else if m = 2 then
           (if \<not> (fullName cand = fullName (topPPG ! 0) \<or> fullName cand = fullName (topPPG ! 1))
            then topPPG[m := cand] else topPPG)
         else topPPG)
      else topPPG)"

definition ppgSlot :: "playerStatline list \<Rightarrow> playerStatline list \<Rightarrow> nat \<Rightarrow> playerStatline list" where
  "ppgSlot divPlayerStats topPPG m = foldl (ppgStep m) topPPG divPlayerStats"

subsection \<open>Top goals-against average\<close>

text \<open>
  \<open>Math.round\<close> rounds to the nearest integer, a half upwards: it is the floor of its
  argument plus one half. The product \<open>0.44 * GPmax\<close> is never within one fiftieth of a
  half-integer, so for every count of games that a sheet can hold the double-precision
  product rounds to the same integer as the exact product, which the model uses.
\<close>

definition Math_round :: "real \<Rightarrow> int" where
  "Math_round x = \<lfloor>x + 1 / 2\<rfloor>"

definition maxStep :: "nat \<Rightarrow> goalieStatline \<Rightarrow> nat" where
  "maxStep GPmax g = (if GP g > GPmax then GP g else GPmax)"

definition GPmaxOf :: "goalieStatline list \<Rightarrow> nat" where
  "GPmaxOf divGoalieStats = foldl maxStep 0 divGoalieStats"

definition GPminOf :: "goalieStatline list \<Rightarrow> int" where
  "GPminOf divGoalieStats = Math_round (0.44 * real (GPmaxOf divGoalieStats))"

definition gaaStep :: "int \<Rightarrow> nat \<Rightarrow> goalieStatline list \<Rightarrow> goalieStatline \<Rightarrow> goalieStatline list" where
  "gaaStep GPmin m topGAA cand =
     (if GAA cand < GAA (topGAA ! m) \<and> int (GP cand) \<ge> GPmin then
        (if m = 0 then topGAA[m := cand]
         else if m = 1 then
           (if \<not> (fullName cand = fullName (topGAA ! 0)) then topGAA[m := cand] else topGAA)
         else if m = 2 then
           (if \<not> (fullName cand = fullName (topGAA ! 0) \<or> fullName cand = fullName (topGAA ! 1))
            then topGAA[m := cand] else topGAA)
         else topGAA)
      else topGAA)"

definition gaaSlot :: "int \<Rightarrow> goalieStatline list \<Rightarrow> goalieStatline list \<Rightarrow> nat \<Rightarrow> goalieStatline list" where
  "gaaSlot GPmin divGoalieStats topGAA m = foldl (gaaStep GPmin m) topGAA divGoalieStats"

text \<open>
  The goalie block of \<open>processDivision\<close>, from the computation of \<open>GPmax\<close> to the last
  slot, as a function of the division's goalies.
\<close>

definition topGAAOf :: "goalieStatline list \<Rightarrow> goalieStatline list" where
  "topGAAOf divGoalieStats =
     foldl (gaaSlot (GPminOf divGoalieStats) divGoalieStats) (replicate 3 nullGoalie) [0..<3]"

subsection \<open>processDivision\<close>

text \<open>
  \<open>processDivision\<close> is a closure of \<open>handleStatsUpdate\<close>: it reads the four stat sheets
  that the handler has loaded and is called with the games of one division and the flag
  \<open>isPlayoff\<close>. A game carries the two cells that the function reads, \<open>conf\<close> (here
  \<open>gameConf\<close>) and \<open>division1\<close>; both are taken to be strings.

  Reading \<open>divisionGames[0].conf\<close> of an empty list raises a \<open>TypeError\<close>. The division's
  players are the stat lines whose \<open>div\<close> equals the label \<open>conf + ' ' + division1\<close> of the
  first game; with fewer than five of them the function returns at once and builds no
  list (\<open>None\<close>). Otherwise it collects the division's goalies and fills the four lists,
  each from as many copies of its sentinel as it has slots, slot after slot. The model
  ends where the four lists are complete; the rest of the function draws them into the
  template document.
\<close>

record game =
  gameConf :: string
  division1 :: string

record statSheets =
  playerStats :: "playerStatline list"
  goalieStats :: "goalieStatline list"
  playoffPlayerStats :: "playerStatline list"
  playoffGoalieStats :: "goalieStatline list"

record leaderboards =
  topPoints :: "playerStatline list"
  topGoals :: "playerStatline list"
  topPPG :: "playerStatline list"
  topGAA :: "goalieStatline list"

definition processDivision :: "statSheets \<Rightarrow> game list \<Rightarrow> bool \<Rightarrow> error + leaderboards option" where
  "processDivision sheets divisionGames isPlayoff =
     (case divisionGames of
        [] \<Rightarrow> Inl TypeError
      | firstGame # otherGames \<Rightarrow>
          (let statsToUse = (if isPlayoff then playoffPlayerStats sheets else playerStats sheets);
               goalieStatsToUse =
                 (if isPlayoff then playoffGoalieStats sheets else goalieStats sheets);
               confDiv = gameConf firstGame @ '' '' @ division1 firstGame;
               divPlayerStats = filter (\<lambda>s. divLabel s = Some confDiv) statsToUse
           in if length divPlayerStats < 5 then Inr None
              else
                (let divGoalieStats = filter (\<lambda>g. divLabel g = Some confDiv) goalieStatsToUse
                 in Inr (Some
                      \<lparr>topPoints =
                         foldl (pointsSlot divPlayerStats) (replicate 5 nullPlayer) [0..<5],
                       topGoals =
                         foldl (goalsSlot divPlayerStats) (replicate 3 nullPlayer) [0..<3],
                       topPPG =
                         foldl (ppgSlot divPlayerStats) (replicate 3 nullPlayer) [0..<3],
                       topGAA = topGAAOf divGoalieStats\<rparr>))))"

text \<open>
  Notions for the statements about \<open>processDivision\<close>: the label of the division, and the
  players and goalies of the sheets in use that carry it.
\<close>

definition divisionLabel :: "game list \<Rightarrow> string" where
  "divisionLabel divisionGames =
     gameConf (hd divisionGames) @ '' '' @ division1 (hd divisionGames)"

definition divisionPlayers :: "statSheets \<Rightarrow> game list \<Rightarrow> bool \<Rightarrow> playerStatline list" where
  "divisionPlayers sheets divisionGames isPlayoff =
     filter (\<lambda>s. divLabel s = Some (divisionLabel divisionGames))
       (if isPlayoff then playoffPlayerStats sheets else playerStats sheets)"

definition divisionGoalies :: "statSheets \<Rightarrow> game list \<Rightarrow> bool \<Rightarrow> goalieStatline list" where
  "divisionGoalies sheets divisionGames isPlayoff =
     filter (\<lambda>g. divLabel g = Some (divisionLabel divisionGames))
       (if isPlayoff then playoffGoalieStats sheets else goalieStats sheets)"

subsection \<open>The slot rule in the words of the specification\<close>

text \<open>
  A candidate replaces the current holder of slot \<open>m\<close> exactly when it is better than the
  holder and its name does not occupy one of the slots \<open>0..m-1\<close>. \<open>fillSlots\<close> repeats the
  scan of the whole pool for the slots \<open>0..n-1\<close> in turn.
\<close>

definition slotStep ::
  "('a \<Rightarrow> 'a \<Rightarrow> bool) \<Rightarrow> ('a \<Rightarrow> string option) \<Rightarrow> nat \<Rightarrow> 'a list \<Rightarrow> 'a \<Rightarrow> 'a list" where
  "slotStep better name m slots cand =
     (if better cand (slots ! m) \<and> name cand \<notin> name ` set (take m slots)
      then slots[m := cand] else slots)"

definition scanSlot ::
  "('a \<Rightarrow> 'a \<Rightarrow> bool) \<Rightarrow> ('a \<Rightarrow> string option) \<Rightarrow> 'a list \<Rightarrow> 'a list \<Rightarrow> nat \<Rightarrow> 'a list" where
  "scanSlot better name pool slots m = foldl (slotStep better name m) slots pool"

definition fillSlots ::
  "('a \<Rightarrow> 'a \<Rightarrow> bool) \<Rightarrow> ('a \<Rightarrow> string option) \<Rightarrow> 'a list \<Rightarrow> 'a \<Rightarrow> nat \<Rightarrow> 'a list" where
  "fillSlots better name pool sentinel n =
     foldl (scanSlot better name pool) (replicate n sentinel) [0..<n]"

text \<open>
  The invariant of the loop over the slots, after the slots \<open>0..k-1\<close> have been filled
  from \<open>n\<close> copies of the sentinel.
\<close>

definition slotsFilled ::
  "('a \<Rightarrow> string option) \<Rightarrow> ('a \<Rightarrow> bool) \<Rightarrow> 'a list \<Rightarrow> 'a \<Rightarrow> nat \<Rightarrow> nat \<Rightarrow> 'a list \<Rightarrow> bool" where
  "slotsFilled name elig pool sentinel n k slots \<longleftrightarrow>
     length slots = n \<and>
     (\<forall>j < n. k \<le> j \<longrightarrow> slots ! j = sentinel) \<and>
     (\<forall>j < k. slots ! j = sentinel \<or>
        (slots ! j \<in> set pool \<and> elig (slots ! j) \<and>
         name (slots ! j) \<notin> name ` set (take j slots)))"

definition betterPoints :: "playerStatline \<Rightarrow> playerStatline \<Rightarrow> bool" where
  "betterPoints cand holder \<longleftrightarrow>
     points cand > points holder \<or> (points cand = points holder \<and> goals cand > goals holder)"

definition betterGoals :: "playerStatline \<Rightarrow> playerStatline \<Rightarrow> bool" where
  "betterGoals cand holder \<longleftrightarrow> goals cand > goals holder"

definition betterPPG :: "playerStatline \<Rightarrow> playerStatline \<Rightarrow> bool" where
  "betterPPG cand holder \<longleftrightarrow> ppg cand > ppg holder"

definition betterGAA :: "int \<Rightarrow> goalieStatline \<Rightarrow> goalieStatline \<Rightarrow> bool" where
  "betterGAA GPmin cand holder \<longleftrightarrow> GAA cand < GAA holder \<and> GPmin \<le> int (GP cand)"


subsection \<open>Example pools\<close>

text \<open>
  The three players of the specification's scenario, two more players of the same
  division and one of another division; two pools of goalies, one whose most used goalie
  has played ten games, one whose most used goalie has played twenty; a game of the
  division; and two sets of sheets. In \<open>shortSheets\<close> the division has the three players
  of the scenario. In \<open>eastSheets\<close> it has five players and two goalies in the regular
  season, and five players and no goalie in the playoffs.
\<close>

definition playerA :: playerStatline where
  "playerA = \<lparr>firstName = Some ''A'', lastName = Some ''One'', teamName = Some ''Owls'',
     divLabel = Some ''East A'', fullName = Some ''A One'',
     goals = 5, assists = 5, points = 10, ppg = 1\<rparr>"

definition playerB :: playerStatline where
  "playerB = \<lparr>firstName = Some ''B'', lastName = Some ''Two'', teamName = Some ''Owls'',
     divLabel = Some ''East A'', fullName = Some ''B Two'',
     goals = 7, assists = 3, points = 10, ppg = 1\<rparr>"

definition playerC :: playerStatline where
  "playerC = \<lparr>firstName = Some ''C'', lastName = Some ''Three'', teamName = Some ''Owls'',
     divLabel = Some ''East A'', fullName = Some ''C Three'',
     goals = 9, assists = 0, points = 9, ppg = 1\<rparr>"

definition starterTen :: goalieStatline where
  "starterTen = \<lparr>firstName = Some ''S'', lastName = Some ''Ten'', teamName = Some ''Owls'',
     divLabel = Some ''East A'', fullName = Some ''S Ten'', GA = 30, GAA = 3, GP = 10\<rparr>"

definition backupFour :: goalieStatline where
  "backupFour = \<lparr>firstName = Some ''B'', lastName = Some ''Four'', teamName = Some ''Owls'',
     divLabel = Some ''East A'', fullName = Some ''B Four'', GA = 2, GAA = 1 / 2, GP = 4\<rparr>"

definition starterTwenty :: goalieStatline where
  "starterTwenty = \<lparr>firstName = Some ''S'', lastName = Some ''Twenty'', teamName = Some ''Owls'',
     divLabel = Some ''East A'', fullName = Some ''S Twenty'', GA = 60, GAA = 3, GP = 20\<rparr>"

definition backupEight :: goalieStatline where
  "backupEight = \<lparr>firstName = Some ''B'', lastName = Some ''Eight'', teamName = Some ''Owls'',
     divLabel = Some ''East A'', fullName = Some ''B Eight'', GA = 4, GAA = 1 / 2, GP = 8\<rparr>"

definition playerD :: playerStatline where
  "playerD = \<lparr>firstName = Some ''D'', lastName = Some ''Four'', teamName = Some ''Owls'',
     divLabel = Some ''East A'', fullName = Some ''D Four'',
     goals = 2, assists = 2, points = 4, ppg = 1 / 2\<rparr>"

definition playerE :: playerStatline where
  "playerE = \<lparr>firstName = Some ''E'', lastName = Some ''Five'', teamName = Some ''Owls'',
     divLabel = Some ''East A'', fullName = Some ''E Five'',
     goals = 0, assists = 0, points = 0, ppg = 0\<rparr>"

definition playerW :: playerStatline where
  "playerW = \<lparr>firstName = Some ''W'', lastName = Some ''Six'', teamName = Some ''Elks'',
     divLabel = Some ''West A'', fullName = Some ''W Six'',
     goals = 30, assists = 20, points = 50, ppg = 5\<rparr>"

definition eastGame :: game where
  "eastGame = \<lparr>gameConf = ''East'', division1 = ''A''\<rparr>"

definition shortSheets :: statSheets where
  "shortSheets = \<lparr>playerStats = [playerA, playerB, playerC],
     goalieStats = [starterTwenty, backupEight],
     playoffPlayerStats = [], playoffGoalieStats = []\<rparr>"

definition eastSheets :: statSheets where
  "eastSheets = \<lparr>playerStats = [playerA, playerW, playerB, playerC, playerD, playerE],
     goalieStats = [starterTwenty, backupEight],
     playoffPlayerStats = [playerA, playerB, playerC, playerD, playerE],
     playoffGoalieStats = []\<rparr>"

chapter \<open>Properties\<close>

subsection \<open>Header-indexed row accessor\<close>

lemma dom_headerAssign:
  "dom (headerAssign headerRow headerMap i) \<subseteq> insert (headerRow ! i) (dom headerMap)"
  by (auto simp: headerAssign_def)

lemma dom_header_fold:
  "n \<le> length headerRow \<Longrightarrow>
   dom (foldl (headerAssign headerRow) m [0..<n]) \<subseteq> dom m \<union> set (take n headerRow)"
proof (induction n)
  case 0
  show ?case by simp
next
  case (Suc n)
  let ?before = "foldl (headerAssign headerRow) m [0..<n]"
  from Suc have n: "n < length headerRow"
    and IH: "dom ?before \<subseteq> dom m \<union> set (take n headerRow)" by simp_all
  from n have tk: "set (take (Suc n) headerRow) = insert (headerRow ! n) (set (take n headerRow))"
    by (simp add: take_Suc_conv_app_nth)
  have "dom (headerAssign headerRow ?before n) \<subseteq> insert (headerRow ! n) (dom ?before)"
    by (rule dom_headerAssign)
  also from IH have "\<dots> \<subseteq> dom m \<union> set (take (Suc n) headerRow)"
    unfolding tk by blast
  finally show ?case by simp
qed

lemma dom_createHeaderMap: "dom (createHeaderMap headerRow) \<subseteq> set headerRow"
  unfolding createHeaderMap_def using dom_header_fold [of "length headerRow" headerRow Map.empty]
  by simp

text \<open>
  C9. When the column name does not occur in the header row, looking the column up in any
  row through the header map built from that header row gives the empty string.
\<close>

theorem getValue_absent_column:
  "columnName \<notin> set headerRow \<Longrightarrow>
   getValue row columnName (createHeaderMap headerRow) = Some ''''"
proof -
  assume "columnName \<notin> set headerRow"
  with dom_createHeaderMap [of headerRow] have "columnName \<notin> dom (createHeaderMap headerRow)"
    by blast
  then have "createHeaderMap headerRow columnName = None" by blast
  then show ?thesis by (simp add: getValue_def)
qed

theorem getValue_absent_column_witness:
  "''RANK'' \<notin> set [''Team Name'', ''GP''] \<and>
   getValue [''Owls'', ''12''] ''RANK'' (createHeaderMap [''Team Name'', ''GP'']) = Some ''''"
  using getValue_absent_column [of "''RANK''" "[''Team Name'', ''GP'']" "[''Owls'', ''12'']"]
  by simp

text \<open>
  C10. When the column name is in the header map and the row has no cell at the mapped
  index (the row is shorter than the header), the accessor returns \<open>undefined\<close>, which is
  not the empty string.
\<close>

theorem getValue_short_row:
  "headerMap columnName = Some idx \<Longrightarrow> length row \<le> idx \<Longrightarrow>
   getValue row columnName headerMap = None \<and> getValue row columnName headerMap \<noteq> Some ''''"
  by (simp add: getValue_def)

theorem getValue_short_row_witness:
  "createHeaderMap [''Team Name'', ''GP'', ''RANK''] ''RANK'' = Some 2 \<and>
   length [''Owls'', ''12''] \<le> (2::nat) \<and>
   getValue [''Owls'', ''12''] ''RANK'' (createHeaderMap [''Team Name'', ''GP'', ''RANK'']) = None \<and>
   getValue [''Owls'', ''12''] ''RANK'' (createHeaderMap [''Team Name'', ''GP'', ''RANK''])
     \<noteq> Some ''''"
proof -
  have h: "createHeaderMap [''Team Name'', ''GP'', ''RANK''] ''RANK'' = Some 2"
    by (simp add: createHeaderMap_def upt_rec) (simp add: headerAssign_def)
  have l: "length [''Owls'', ''12''] \<le> (2::nat)" by simp
  show ?thesis
    using h l getValue_short_row [of "createHeaderMap [''Team Name'', ''GP'', ''RANK'']"
        "''RANK''" 2 "[''Owls'', ''12'']"]
    by simp
qed


subsection \<open>Balanced chunk partitioner\<close>

declare chunkLoop.simps [simp del]

lemma chunkLoop_stop:
  "\<not> c < numChunks \<Longrightarrow> chunkLoop standings numChunks chunkSize c startIndex chunks = chunks"
  by (simp add: chunkLoop.simps)

lemma chunkLoop_last:
  "Suc c = numChunks \<Longrightarrow>
   chunkLoop standings numChunks chunkSize c startIndex chunks =
     (if drop startIndex standings \<noteq> [] then chunks @ [drop startIndex standings] else chunks)"
  by (subst chunkLoop.simps) (auto simp add: slice_def Let_def chunkLoop_stop)

lemma chunkLoop_more:
  "Suc c < numChunks \<Longrightarrow>
   chunkLoop standings numChunks chunkSize c startIndex chunks =
     chunkLoop standings numChunks chunkSize (Suc c) (startIndex + chunkSize)
       (if slice standings startIndex (startIndex + chunkSize) \<noteq> []
        then chunks @ [slice standings startIndex (startIndex + chunkSize)] else chunks)"
  by (subst chunkLoop.simps) (auto simp add: Let_def)

lemma slice_then_rest:
  "slice xs a (a + b) @ drop (a + b) xs = drop a xs"
proof -
  have "take b (drop a xs) @ drop b (drop a xs) = drop a xs"
    by (rule append_take_drop_id)
  then show ?thesis by (simp add: slice_def drop_take add.commute)
qed

lemma chunkLoop_concat:
  "c < numChunks \<Longrightarrow>
   concat (chunkLoop standings numChunks chunkSize c startIndex chunks) =
     concat chunks @ drop startIndex standings"
proof (induction "numChunks - c" arbitrary: c startIndex chunks)
  case 0
  then show ?case by simp
next
  case (Suc d)
  show ?case
  proof (cases "Suc c = numChunks")
    case True
    then show ?thesis by (simp add: chunkLoop_last)
  next
    case False
    with Suc.prems have more: "Suc c < numChunks" by simp
    from Suc.hyps(2) have d: "d = numChunks - Suc c" by simp
    have "concat (if slice standings startIndex (startIndex + chunkSize) \<noteq> []
        then chunks @ [slice standings startIndex (startIndex + chunkSize)] else chunks) =
        concat chunks @ slice standings startIndex (startIndex + chunkSize)"
      by simp
    then show ?thesis
      using Suc.hyps(1) [OF d more] slice_then_rest [of standings startIndex chunkSize]
      by (simp only: chunkLoop_more [OF more] append_assoc)
  qed
qed

lemma chunkLoop_sizes:
  "c < numChunks \<Longrightarrow> 0 < chunkSize \<Longrightarrow> (numChunks - 1) * chunkSize < length standings \<Longrightarrow>
   map length (chunkLoop standings numChunks chunkSize c (c * chunkSize) chunks) =
     map length chunks @ replicate (numChunks - 1 - c) chunkSize @
       [length standings - (numChunks - 1) * chunkSize]"
proof (induction "numChunks - c" arbitrary: c chunks)
  case 0
  then show ?case by simp
next
  case (Suc d)
  show ?case
  proof (cases "Suc c = numChunks")
    case True
    then have k: "numChunks = Suc c" by simp
    show ?thesis using Suc.prems unfolding k by (simp add: chunkLoop_last)
  next
    case False
    with Suc.prems have more: "Suc c < numChunks" by simp
    from Suc.hyps(2) have d: "d = numChunks - Suc c" by simp
    from more have "Suc c \<le> numChunks - 1" by simp
    then have "Suc c * chunkSize \<le> (numChunks - 1) * chunkSize" by (rule mult_le_mono1)
    with Suc.prems have inside: "c * chunkSize + chunkSize < length standings" by simp
    then have len: "length (slice standings (c * chunkSize) (c * chunkSize + chunkSize)) = chunkSize"
      by (simp add: slice_def)
    with Suc.prems have ne: "slice standings (c * chunkSize) (c * chunkSize + chunkSize) \<noteq> []"
      by auto
    have rep: "replicate (numChunks - 1 - c) chunkSize =
        chunkSize # replicate (numChunks - 1 - Suc c) chunkSize"
      using more by (cases "numChunks - 1 - c") auto
    show ?thesis
      using Suc.hyps(1) [OF d more Suc.prems(2) Suc.prems(3)] len ne rep
      by (simp add: chunkLoop_more [OF more] add.commute)
  qed
qed


lemma Math_ceil_div_bounds:
  fixes n b :: nat
  assumes "0 < b" and "0 < n"
  defines "k \<equiv> nat (Math_ceil (real n / real b))"
  shows "0 < k" and "n \<le> k * b" and "(k - 1) * b < n"
proof -
  let ?x = "real n / real b"
  from assms have xpos: "0 < ?x" by simp
  then have cpos: "0 < \<lceil>?x\<rceil>" by simp
  then show kpos: "0 < k" by (simp add: k_def Math_ceil_def)
  from cpos have rk: "real k = of_int \<lceil>?x\<rceil>" by (simp add: k_def Math_ceil_def)
  have "?x \<le> real k" unfolding rk by (rule le_of_int_ceiling)
  with assms(1) have "real n \<le> real k * real b" by (simp add: field_simps)
  then have "real n \<le> real (k * b)" by simp
  then show "n \<le> k * b" by (simp only: of_nat_le_iff)
  have "real k - 1 < ?x" unfolding rk using ceiling_correct [of ?x] by linarith
  with assms(1) have "(real k - 1) * real b < real n" by (simp add: field_simps)
  moreover from kpos have "real (k - 1) = real k - 1" by (simp add: of_nat_diff)
  ultimately have "real ((k - 1) * b) < real n" by simp
  then show "(k - 1) * b < n" by (simp only: of_nat_less_iff)
qed

lemma Math_ceil_div_eq:
  fixes n b :: nat
  assumes "0 < b"
  shows "nat (Math_ceil (real n / real b)) = (n + b - 1) div b"
proof (cases "n = 0")
  case True
  with assms show ?thesis by (simp add: Math_ceil_def)
next
  case False
  then have n: "0 < n" by simp
  let ?k = "nat (Math_ceil (real n / real b))"
  from Math_ceil_div_bounds [OF assms n]
  have k: "0 < ?k" and up: "n \<le> ?k * b" and low: "(?k - 1) * b < n" by simp_all
  from k obtain j where j: "?k = Suc j" by (cases ?k) auto
  from low j have "Suc j * b \<le> n + b - 1" using assms by simp
  moreover from up j have "n + b - 1 < Suc (Suc j) * b" using assms by simp
  ultimately have "(n + b - 1) div b = Suc j"
    by (simp add: div_nat_eqI mult.commute)
  with j show ?thesis by simp
qed

lemma chunk_arith:
  fixes n mx :: nat
  assumes "1 \<le> mx" and "mx < n"
  defines "numChunks \<equiv> nat (Math_ceil (real n / real mx))"
  defines "chunkSize \<equiv> nat (Math_ceil (real n / real numChunks))"
  shows "2 \<le> numChunks" and "0 < chunkSize" and "chunkSize \<le> mx"
    and "(numChunks - 1) * chunkSize < n" and "n \<le> numChunks * chunkSize"
proof -
  from assms have mx: "0 < mx" and n: "0 < n" by simp_all
  from Math_ceil_div_bounds [OF mx n]
  have k: "0 < numChunks" and kup: "n \<le> numChunks * mx" and klow: "(numChunks - 1) * mx < n"
    by (simp_all add: numChunks_def)
  from Math_ceil_div_bounds [OF k n]
  have s: "0 < chunkSize" and sup: "n \<le> chunkSize * numChunks"
    and slow: "(chunkSize - 1) * numChunks < n"
    by (simp_all add: chunkSize_def)
  show two: "2 \<le> numChunks"
  proof (rule ccontr)
    assume "\<not> 2 \<le> numChunks"
    with k have "numChunks = 1" by simp
    with kup assms(2) show False by simp
  qed
  show "0 < chunkSize" by (rule s)
  show le: "chunkSize \<le> mx"
  proof (rule ccontr)
    assume "\<not> chunkSize \<le> mx"
    then have "mx \<le> chunkSize - 1" by simp
    then have "mx * numChunks \<le> (chunkSize - 1) * numChunks" by (rule mult_le_mono1)
    moreover from kup have "n \<le> mx * numChunks" by (simp add: mult.commute)
    ultimately show False using slow by linarith
  qed
  from le have "(numChunks - 1) * chunkSize \<le> (numChunks - 1) * mx" by (rule mult_le_mono2)
  with klow show "(numChunks - 1) * chunkSize < n" by linarith
  from sup show "n \<le> numChunks * chunkSize" by (simp add: mult.commute)
qed


lemma chunkStandings_sizes:
  assumes "1 \<le> maxPerChunk" and "maxPerChunk < length items"
  shows "map length (chunkStandings maxPerChunk items) =
    replicate (nat (Math_ceil (real (length items) / real maxPerChunk)) - 1)
      (nat (Math_ceil (real (length items) /
         real (nat (Math_ceil (real (length items) / real maxPerChunk)))))) @
    [length items - (nat (Math_ceil (real (length items) / real maxPerChunk)) - 1) *
      nat (Math_ceil (real (length items) /
         real (nat (Math_ceil (real (length items) / real maxPerChunk)))))]"
proof -
  let ?k = "nat (Math_ceil (real (length items) / real maxPerChunk))"
  let ?s = "nat (Math_ceil (real (length items) / real ?k))"
  from chunk_arith [OF assms]
  have k: "2 \<le> ?k" and s: "0 < ?s" and low: "(?k - 1) * ?s < length items" by simp_all
  from k have c: "0 < ?k" by simp
  from chunkLoop_sizes [OF c s low, of "[]"]
  show ?thesis using assms by (simp add: chunkStandings_def Let_def)
qed

lemma chunkStandings_concat:
  assumes "1 \<le> maxPerChunk"
  shows "concat (chunkStandings maxPerChunk items) = items"
proof (cases "length items \<le> maxPerChunk")
  case True
  then show ?thesis by (simp add: chunkStandings_def)
next
  case False
  then have big: "maxPerChunk < length items" by simp
  from chunk_arith(1) [OF assms big]
  have "0 < nat (Math_ceil (real (length items) / real maxPerChunk))" by simp
  from chunkLoop_concat [OF this, of items _ 0 "[]"]
  show ?thesis using False by (simp add: chunkStandings_def Let_def)
qed

lemma chunkStandings_sizes_div:
  assumes "1 \<le> maxPerChunk" and "maxPerChunk < length items"
    and "(length items + maxPerChunk - 1) div maxPerChunk = k"
    and "(length items + k - 1) div k = s"
  shows "map length (chunkStandings maxPerChunk items) =
    replicate (k - 1) s @ [length items - (k - 1) * s]"
proof -
  from assms(1) have mx: "0 < maxPerChunk" by simp
  have k: "nat (Math_ceil (real (length items) / real maxPerChunk)) = k"
    using Math_ceil_div_eq [OF mx, of "length items"] assms(3) by simp
  from chunk_arith(1) [OF assms(1,2)] k have "0 < k" by simp
  then have s: "nat (Math_ceil (real (length items) / real k)) = s"
    using Math_ceil_div_eq [of k "length items"] assms(4) by simp
  show ?thesis using chunkStandings_sizes [OF assms(1,2)] unfolding k s .
qed

text \<open>
  C1. For every list of items and every maximum of at least one: the chunks concatenate to
  the input list; a list no longer than the maximum is returned as the single chunk; a
  longer list is split into \<open>numChunks = ceil (n / max)\<close> chunks, all but the last of size
  \<open>chunkSize = ceil (n / numChunks)\<close>, the last non-empty and of size at most \<open>chunkSize\<close>,
  and no chunk is longer than the maximum. With the source's maximum of \<open>9\<close>, nineteen
  items give sizes \<open>[7, 7, 5]\<close>, twelve give \<open>[6, 6]\<close> and five give \<open>[5]\<close>.
\<close>

theorem chunk_partition:
  "1 \<le> maxPerChunk \<Longrightarrow>
   concat (chunkStandings maxPerChunk items) = items \<and>
   (length items \<le> maxPerChunk \<longrightarrow> chunkStandings maxPerChunk items = [items]) \<and>
   (maxPerChunk < length items \<longrightarrow>
     (let numChunks = nat (Math_ceil (real (length items) / real maxPerChunk));
          chunkSize = nat (Math_ceil (real (length items) / real numChunks));
          chunks = chunkStandings maxPerChunk items
      in length chunks = numChunks \<and>
         (\<forall>chunk \<in> set (butlast chunks). length chunk = chunkSize) \<and>
         0 < length (last chunks) \<and> length (last chunks) \<le> chunkSize \<and>
         (\<forall>chunk \<in> set chunks. length chunk \<le> maxPerChunk))) \<and>
   (length items = 19 \<longrightarrow> map length (chunkStandings MAX_TEAMS_PER_CHUNK items) = [7, 7, 5]) \<and>
   (length items = 12 \<longrightarrow> map length (chunkStandings MAX_TEAMS_PER_CHUNK items) = [6, 6]) \<and>
   (length items = 5 \<longrightarrow> map length (chunkStandings MAX_TEAMS_PER_CHUNK items) = [5])"
proof (intro conjI impI)
  assume mx: "1 \<le> maxPerChunk"
  show "concat (chunkStandings maxPerChunk items) = items"
    using mx by (rule chunkStandings_concat)
  show "chunkStandings maxPerChunk items = [items]" if "length items \<le> maxPerChunk"
    using that by (simp add: chunkStandings_def)
  show "let numChunks = nat (Math_ceil (real (length items) / real maxPerChunk));
          chunkSize = nat (Math_ceil (real (length items) / real numChunks));
          chunks = chunkStandings maxPerChunk items
      in length chunks = numChunks \<and>
         (\<forall>chunk \<in> set (butlast chunks). length chunk = chunkSize) \<and>
         0 < length (last chunks) \<and> length (last chunks) \<le> chunkSize \<and>
         (\<forall>chunk \<in> set chunks. length chunk \<le> maxPerChunk)"
    if big: "maxPerChunk < length items"
  proof -
    let ?k = "nat (Math_ceil (real (length items) / real maxPerChunk))"
    let ?s = "nat (Math_ceil (real (length items) / real ?k))"
    let ?chunks = "chunkStandings maxPerChunk items"
    let ?r = "length items - (?k - 1) * ?s"
    from chunk_arith [OF mx big]
    have k: "2 \<le> ?k" and s: "0 < ?s" and smx: "?s \<le> maxPerChunk"
      and low: "(?k - 1) * ?s < length items" and up: "length items \<le> ?k * ?s" by simp_all
    have sizes: "map length ?chunks = replicate (?k - 1) ?s @ [?r]"
      using chunkStandings_sizes [OF mx big] .
    from arg_cong [OF sizes, of length] k have len: "length ?chunks = ?k" by simp
    then have ne: "?chunks \<noteq> []" using k by auto
    from ne have "map length (butlast ?chunks) = butlast (map length ?chunks)"
      by (simp add: map_butlast)
    with sizes have bl: "map length (butlast ?chunks) = replicate (?k - 1) ?s" by simp
    have b: "\<forall>chunk \<in> set (butlast ?chunks). length chunk = ?s"
    proof
      fix chunk assume "chunk \<in> set (butlast ?chunks)"
      then have "length chunk \<in> set (map length (butlast ?chunks))" by simp
      then show "length chunk = ?s" unfolding bl by simp
    qed
    from ne have "length (last ?chunks) = last (map length ?chunks)" by (simp add: last_map)
    with sizes have la: "length (last ?chunks) = ?r" by simp
    from low have rpos: "0 < ?r" by simp
    have "?k * ?s = (?k - 1) * ?s + ?s" using k by (cases ?k) simp_all
    with up have rle: "?r \<le> ?s" by linarith
    have m: "\<forall>chunk \<in> set ?chunks. length chunk \<le> maxPerChunk"
    proof
      fix chunk assume "chunk \<in> set ?chunks"
      then have "length chunk \<in> set (map length ?chunks)" by simp
      then have "length chunk = ?s \<or> length chunk = ?r" unfolding sizes by auto
      with rle smx show "length chunk \<le> maxPerChunk" by auto
    qed
    show ?thesis unfolding Let_def using len b la rpos rle m by simp
  qed
  show "map length (chunkStandings MAX_TEAMS_PER_CHUNK items) = [7, 7, 5]" if "length items = 19"
  proof -
    have "map length (chunkStandings 9 items) = replicate (3 - 1) 7 @ [19 - (3 - 1) * 7]"
      using that chunkStandings_sizes_div [of 9 items 3 7] by simp
    then show ?thesis by (simp add: MAX_TEAMS_PER_CHUNK_def numeral_2_eq_2)
  qed
  show "map length (chunkStandings MAX_TEAMS_PER_CHUNK items) = [6, 6]" if "length items = 12"
  proof -
    have "map length (chunkStandings 9 items) = replicate (2 - 1) 6 @ [12 - (2 - 1) * 6]"
      using that chunkStandings_sizes_div [of 9 items 2 6] by simp
    then show ?thesis by (simp add: MAX_TEAMS_PER_CHUNK_def)
  qed
  show "map length (chunkStandings MAX_TEAMS_PER_CHUNK items) = [5]" if "length items = 5"
    using that by (simp add: MAX_TEAMS_PER_CHUNK_def chunkStandings_def)
qed

theorem chunk_partition_witness:
  "(1::nat) \<le> 9 \<and> (9::nat) < length [0..<19::nat] \<and> length [0..<5::nat] \<le> (9::nat) \<and>
   concat (chunkStandings 9 [0..<19::nat]) = [0..<19] \<and>
   length (chunkStandings 9 [0..<19::nat]) = 3 \<and>
   length (last (chunkStandings 9 [0..<19::nat])) \<le> 7 \<and>
   chunkStandings 9 [0..<5::nat] = [[0..<5]] \<and>
   map length (chunkStandings MAX_TEAMS_PER_CHUNK [0..<19::nat]) = [7, 7, 5] \<and>
   map length (chunkStandings MAX_TEAMS_PER_CHUNK [0..<12::nat]) = [6, 6] \<and>
   map length (chunkStandings MAX_TEAMS_PER_CHUNK [0..<5::nat]) = [5]"
proof -
  have k: "nat (Math_ceil (real (length [0..<19::nat]) / real (9::nat))) = 3"
    using Math_ceil_div_eq [of 9 19] by simp
  have s: "nat (Math_ceil (real (length [0..<19::nat]) / real (3::nat))) = 7"
    using Math_ceil_div_eq [of 3 19] by simp
  show ?thesis
    using chunk_partition [of 9 "[0..<19::nat]"] chunk_partition [of 9 "[0..<12::nat]"]
      chunk_partition [of 9 "[0..<5::nat]"]
    unfolding Let_def k s by simp
qed


subsection \<open>Tabular parser\<close>

lemma splitOn_nonempty [simp]: "splitOn sep s \<noteq> []"
  by (induction s) (auto split: list.splits)

lemma splitOn_Cons:
  "splitOn sep (c # cs) =
     (if c = sep then [] # splitOn sep cs
      else (c # hd (splitOn sep cs)) # tl (splitOn sep cs))"
  by (cases "splitOn sep cs") simp_all

lemma splitOn_no_sep: "sep \<notin> set s \<Longrightarrow> splitOn sep s = [s]"
  by (induction s) auto

lemma splitOn_append: "splitOn sep (a @ sep # b) = splitOn sep a @ splitOn sep b"
  by (induction a) (auto split: list.splits simp: append_eq_Cons_conv)

lemma splitOn_pieces: "p \<in> set (splitOn sep s) \<Longrightarrow> set p \<subseteq> set s - {sep}"
proof (induction s arbitrary: p)
  case Nil
  then show ?case by simp
next
  case (Cons c cs)
  have ne: "splitOn sep cs \<noteq> []" by simp
  show ?case
  proof (cases "c = sep")
    case True
    with Cons show ?thesis by auto
  next
    case False
    with Cons.prems have "p = c # hd (splitOn sep cs) \<or> p \<in> set (tl (splitOn sep cs))"
      by (simp only: splitOn_Cons) simp
    then show ?thesis
    proof
      assume p: "p = c # hd (splitOn sep cs)"
      from ne have "hd (splitOn sep cs) \<in> set (splitOn sep cs)" by simp
      from Cons.IH [OF this] p False show ?thesis by auto
    next
      assume "p \<in> set (tl (splitOn sep cs))"
      with ne have "p \<in> set (splitOn sep cs)" by (meson list.set_sel(2))
      from Cons.IH [OF this] show ?thesis by auto
    qed
  qed
qed

lemma trim_empty_iff: "trim s = [] \<longleftrightarrow> (\<forall>c \<in> set s. isWhiteSpace c)"
proof -
  have "trim s = [] \<longleftrightarrow> (\<forall>c \<in> set (dropWhile isWhiteSpace s). isWhiteSpace c)"
    by (simp add: trim_def dropWhile_eq_Nil_conv)
  also have "\<dots> \<longleftrightarrow> dropWhile isWhiteSpace s = []"
  proof
    assume a: "\<forall>c \<in> set (dropWhile isWhiteSpace s). isWhiteSpace c"
    show "dropWhile isWhiteSpace s = []"
    proof (rule ccontr)
      assume ne: "dropWhile isWhiteSpace s \<noteq> []"
      then have "\<not> isWhiteSpace (hd (dropWhile isWhiteSpace s))" by (rule hd_dropWhile)
      moreover from ne have "hd (dropWhile isWhiteSpace s) \<in> set (dropWhile isWhiteSpace s)"
        by simp
      ultimately show False using a by blast
    qed
  qed (auto dest: set_dropWhileD)
  also have "\<dots> \<longleftrightarrow> (\<forall>c \<in> set s. isWhiteSpace c)"
    by (simp add: dropWhile_eq_Nil_conv)
  finally show ?thesis .
qed

lemma trim_fixed:
  assumes "s = [] \<or> (\<not> isWhiteSpace (hd s) \<and> \<not> isWhiteSpace (last s))"
  shows "trim s = s"
proof (cases "s = []")
  case True
  then show ?thesis by (simp add: trim_def)
next
  case False
  with assms have h: "\<not> isWhiteSpace (hd s)" and l: "\<not> isWhiteSpace (last s)" by simp_all
  from False h have "dropWhile isWhiteSpace s = s" by (cases s) simp_all
  moreover from False l have "dropWhile isWhiteSpace (rev s) = rev s"
    by (cases "rev s") (simp_all add: last_rev [symmetric] del: last_rev)
  ultimately show ?thesis by (simp add: trim_def)
qed

lemma last_dropWhile_nonempty: "dropWhile P xs \<noteq> [] \<Longrightarrow> last (dropWhile P xs) = last xs"
  by (metis last_appendR takeWhile_dropWhile_id)

lemma trim_ends:
  assumes "trim s \<noteq> []"
  shows "\<not> isWhiteSpace (hd (trim s))" and "\<not> isWhiteSpace (last (trim s))"
proof -
  let ?u = "dropWhile isWhiteSpace s"
  let ?v = "dropWhile isWhiteSpace (rev ?u)"
  from assms have v: "?v \<noteq> []" by (simp add: trim_def)
  then have u: "?u \<noteq> []" by (metis dropWhile.simps(1) rev.simps(1))
  from u have hu: "\<not> isWhiteSpace (hd ?u)" by (rule hd_dropWhile)
  from v have hv: "\<not> isWhiteSpace (hd ?v)" by (rule hd_dropWhile)
  from v have "last ?v = last (rev ?u)" by (rule last_dropWhile_nonempty)
  with u have lv: "last ?v = hd ?u" by (simp add: last_rev)
  from v have "hd (trim s) = last ?v" by (simp add: trim_def hd_rev)
  with lv hu show "\<not> isWhiteSpace (hd (trim s))" by simp
  from v have "last (trim s) = hd ?v" by (simp add: trim_def last_rev)
  with hv show "\<not> isWhiteSpace (last (trim s))" by simp
qed

lemma trim_idem: "trim (trim s) = trim s"
  using trim_ends [of s] by (intro trim_fixed) blast

lemma set_trim: "set (trim s) \<subseteq> set s"
proof -
  have "set (trim s) \<subseteq> set (rev (dropWhile isWhiteSpace s))"
    unfolding trim_def set_rev by (auto dest: set_dropWhileD)
  also have "\<dots> \<subseteq> set s" by (auto dest: set_dropWhileD)
  finally show ?thesis .
qed

lemma scan_prefix:
  "foldl parseChar (csvArray, currentValue, inQuotes) line =
     (case foldl parseChar ([], currentValue, inQuotes) line of
        (cells, cur, q) \<Rightarrow> (csvArray @ cells, cur, q))"
proof (induction line arbitrary: csvArray currentValue inQuotes)
  case Nil
  show ?case by simp
next
  case (Cons ch line)
  show ?case
  proof (cases "ch \<noteq> quoteChar \<and> ch = commaChar \<and> \<not> inQuotes")
    case True
    then show ?thesis
      using Cons.IH [of "csvArray @ [trim currentValue]" "[]" inQuotes]
        Cons.IH [of "[trim currentValue]" "[]" inQuotes]
      by (simp split: prod.splits)
  next
    case False
    then show ?thesis
      using Cons.IH [of csvArray "currentValue @ [ch]" inQuotes]
        Cons.IH [of csvArray currentValue "\<not> inQuotes"]
      by (auto split: prod.splits)
  qed
qed

lemma scan_flag:
  "snd (snd (foldl parseChar (csvArray, currentValue, inQuotes) line)) =
     (inQuotes \<noteq> odd (count_list line quoteChar))"
  by (induction line arbitrary: csvArray currentValue inQuotes) auto

lemma scan_plain:
  "quoteChar \<notin> set line \<Longrightarrow> inQuotes \<or> commaChar \<notin> set line \<Longrightarrow>
   foldl parseChar (csvArray, currentValue, inQuotes) line =
     (csvArray, currentValue @ line, inQuotes)"
  by (induction line arbitrary: currentValue) auto

lemma parseLine_plain:
  "quoteChar \<notin> set line \<Longrightarrow> commaChar \<notin> set line \<Longrightarrow> parseLine line = [trim line]"
  by (simp add: parseLine_def scan_plain)

lemma parseLine_unterminated:
  "quoteChar \<notin> set rest \<Longrightarrow> parseLine (quoteChar # rest) = [trim rest]"
  by (simp add: parseLine_def scan_plain)

lemma parseLine_quoted:
  "quoteChar \<notin> set field \<Longrightarrow> parseLine (quoteChar # field @ [quoteChar]) = [trim field]"
  by (simp add: parseLine_def scan_plain)

lemma parseLine_comma:
  assumes "even (count_list a quoteChar)"
  shows "parseLine (a @ commaChar # b) = parseLine a @ parseLine b"
proof -
  obtain cellsA curA qA where A: "foldl parseChar ([], [], False) a = (cellsA, curA, qA)"
    by (cases "foldl parseChar ([], [], False) a") auto
  obtain cellsB curB qB where B: "foldl parseChar ([], [], False) b = (cellsB, curB, qB)"
    by (cases "foldl parseChar ([], [], False) b") auto
  from scan_flag [of "[]" "[]" False a] A assms have q: "qA = False" by simp
  have "foldl parseChar ([], [], False) (a @ commaChar # b) =
      foldl parseChar (cellsA @ [trim curA], [], False) b"
    by (simp add: A q)
  also have "\<dots> = ((cellsA @ [trim curA]) @ cellsB, curB, qB)"
    by (subst scan_prefix) (simp add: B)
  finally show ?thesis by (simp add: parseLine_def A B)
qed

lemma scan_cells:
  assumes "\<forall>cell \<in> set csvArray. trim cell = cell \<and> set cell \<subseteq> A"
    and "set currentValue \<subseteq> A" and "set line - {quoteChar} \<subseteq> A"
  shows "(\<forall>cell \<in> set (fst (foldl parseChar (csvArray, currentValue, inQuotes) line)).
            trim cell = cell \<and> set cell \<subseteq> A) \<and>
         set (fst (snd (foldl parseChar (csvArray, currentValue, inQuotes) line))) \<subseteq> A"
  using assms
proof (induction line arbitrary: csvArray currentValue inQuotes)
  case Nil
  then show ?case by simp
next
  case (Cons ch line)
  obtain arr' cur' q' where step: "parseChar (csvArray, currentValue, inQuotes) ch = (arr', cur', q')"
    by (cases "parseChar (csvArray, currentValue, inQuotes) ch") auto
  from Cons.prems(3) have rest: "set line - {quoteChar} \<subseteq> A" by auto
  have tr: "set (trim currentValue) \<subseteq> A"
    using set_trim [of currentValue] Cons.prems(2) by blast
  have "arr' = csvArray \<or> arr' = csvArray @ [trim currentValue]"
    using step by (auto split: if_splits)
  then have arr': "\<forall>cell \<in> set arr'. trim cell = cell \<and> set cell \<subseteq> A"
  proof
    assume "arr' = csvArray"
    with Cons.prems(1) show ?thesis by simp
  next
    assume "arr' = csvArray @ [trim currentValue]"
    with Cons.prems(1) tr show ?thesis by (simp add: trim_idem)
  qed
  have cur': "set cur' \<subseteq> A"
    using step Cons.prems(2,3) by (auto split: if_splits)
  from Cons.IH [OF arr' cur' rest, of q'] show ?case unfolding foldl_Cons step .
qed

lemma parseLine_cells:
  "cell \<in> set (parseLine line) \<Longrightarrow> trim cell = cell \<and> set cell \<subseteq> set line - {quoteChar}"
proof -
  assume c: "cell \<in> set (parseLine line)"
  obtain cells cur q where S: "foldl parseChar ([], [], False) line = (cells, cur, q)"
    by (cases "foldl parseChar ([], [], False) line") auto
  from scan_cells [of "[]" "set line - {quoteChar}" "[]" line False] S
  have cells: "\<forall>cell \<in> set cells. trim cell = cell \<and> set cell \<subseteq> set line - {quoteChar}"
    and cur: "set cur \<subseteq> set line - {quoteChar}" by simp_all
  from c S have "cell \<in> set cells \<or> cell = trim cur" by (auto simp: parseLine_def)
  then show ?thesis
  proof
    assume "cell \<in> set cells"
    with cells show ?thesis by blast
  next
    assume "cell = trim cur"
    with cur set_trim [of cur] show ?thesis by (auto simp: trim_idem)
  qed
qed

lemma parseLine_nonempty: "parseLine line \<noteq> []"
  by (simp add: parseLine_def split: prod.splits)

lemma parseCSV_append:
  "parseCSV (a @ lineFeed # b) = parseCSV a @ parseCSV b"
  by (simp add: parseCSV_def splitOn_append)

lemma parseCSV_strip: "parseCSV (filter (\<lambda>c. c \<noteq> carriageReturn) s) = parseCSV s"
  by (simp add: parseCSV_def)

lemma parseCSV_blank: "\<forall>c \<in> set s. isWhiteSpace c \<Longrightarrow> parseCSV s = []"
proof -
  assume w: "\<forall>c \<in> set s. isWhiteSpace c"
  have "trim line = []"
    if "line \<in> set (splitOn lineFeed (filter (\<lambda>c. c \<noteq> carriageReturn) s))" for line
    using splitOn_pieces [OF that] w by (auto simp: trim_empty_iff)
  then show ?thesis by (simp add: parseCSV_def filter_empty_conv)
qed

lemma parseCSV_one_line:
  assumes "lineFeed \<notin> set line" and "carriageReturn \<notin> set line" and "trim line \<noteq> []"
  shows "parseCSV line = [parseLine line]"
proof -
  from assms(2) have "filter (\<lambda>c. c \<noteq> carriageReturn) line = line"
    by (auto simp: filter_id_conv)
  with assms(1,3) show ?thesis by (simp add: parseCSV_def splitOn_no_sep)
qed

lemma parseCSV_cells:
  assumes "row \<in> set (parseCSV s)" and "cell \<in> set row"
  shows "trim cell = cell" and "quoteChar \<notin> set cell" and "carriageReturn \<notin> set cell"
    and "lineFeed \<notin> set cell"
proof -
  from assms(1) obtain line
    where line: "line \<in> set (splitOn lineFeed (filter (\<lambda>c. c \<noteq> carriageReturn) s))"
      and row: "row = parseLine line"
    by (auto simp: parseCSV_def)
  from splitOn_pieces [OF line]
  have chars: "lineFeed \<notin> set line" "carriageReturn \<notin> set line" by auto
  from parseLine_cells [of cell line] assms(2) row
  have c: "trim cell = cell" "set cell \<subseteq> set line - {quoteChar}" by simp_all
  from c show "trim cell = cell" by simp
  from c show "quoteChar \<notin> set cell" by auto
  from c chars show "carriageReturn \<notin> set cell" by auto
  from c chars show "lineFeed \<notin> set cell" by auto
qed

lemma scan_no_outside_comma:
  "(\<forall>i < length line. line ! i = commaChar \<longrightarrow>
      (inQuotes \<noteq> odd (count_list (take i line) quoteChar))) \<Longrightarrow>
   foldl parseChar (csvArray, currentValue, inQuotes) line =
     (csvArray, currentValue @ filter (\<lambda>c. c \<noteq> quoteChar) line,
      inQuotes \<noteq> odd (count_list line quoteChar))"
proof (induction line arbitrary: currentValue inQuotes)
  case Nil
  show ?case by simp
next
  case (Cons ch line)
  have later: "\<And>i. i < length line \<Longrightarrow> line ! i = commaChar \<Longrightarrow>
      inQuotes \<noteq> odd (count_list (take (Suc i) (ch # line)) quoteChar)"
    using Cons.prems by (metis Suc_less_eq length_Cons nth_Cons_Suc)
  show ?case
  proof (cases "ch = quoteChar")
    case True
    have "\<forall>i < length line. line ! i = commaChar \<longrightarrow>
        ((\<not> inQuotes) \<noteq> odd (count_list (take i line) quoteChar))"
      using later True by auto
    from Cons.IH [OF this, of currentValue] True show ?thesis by auto
  next
    case False
    have rest: "\<forall>i < length line. line ! i = commaChar \<longrightarrow>
        (inQuotes \<noteq> odd (count_list (take i line) quoteChar))"
      using later False by auto
    have inside: "ch = commaChar \<Longrightarrow> inQuotes"
      using Cons.prems by auto
    from Cons.IH [OF rest, of "currentValue @ [ch]"] False inside show ?thesis by auto
  qed
qed

lemma parseLine_no_outside_comma:
  "(\<forall>i < length line. line ! i = commaChar \<longrightarrow> odd (count_list (take i line) quoteChar)) \<Longrightarrow>
   parseLine line = [trim (filter (\<lambda>c. c \<noteq> quoteChar) line)]"
  using scan_no_outside_comma [of line False "[]" "[]"] by (simp add: parseLine_def)

text \<open>
  C5. On every string the parser returns its rows and raises nothing (a call on
  \<open>undefined\<close> or \<open>null\<close> raises a \<open>TypeError\<close>). Carriage returns are stripped, the text
  is split on line feeds, empty and white-space-only lines give no row, every cell of every
  row is trimmed (and holds no quote, carriage return or line feed). A comma splits a line
  exactly when an even number of quote characters precede it: the line is split at such a
  comma, and a line whose commas all have an odd number of quote characters before them
  is one cell, the line without its quote characters, trimmed. So a quoted field keeps
  its commas, and after an unterminated quote the rest of the line is one cell.
\<close>

theorem parseCSV_total_lenient:
  "parseCSVOf (JSString s) = Inr (parseCSV s) \<and>
   parseCSVOf JSUndefined = Inl TypeError \<and> parseCSVOf JSNull = Inl TypeError \<and>
   parseCSV (a @ lineFeed # b) = parseCSV a @ parseCSV b \<and>
   parseCSV (filter (\<lambda>c. c \<noteq> carriageReturn) s) = parseCSV s \<and>
   ((\<forall>c \<in> set s. isWhiteSpace c) \<longrightarrow> parseCSV s = []) \<and>
   (lineFeed \<notin> set s \<and> carriageReturn \<notin> set s \<and> trim s \<noteq> [] \<longrightarrow>
      parseCSV s = [parseLine s]) \<and>
   (\<forall>row \<in> set (parseCSV s). row \<noteq> [] \<and>
      (\<forall>cell \<in> set row. trim cell = cell \<and> quoteChar \<notin> set cell \<and>
         carriageReturn \<notin> set cell \<and> lineFeed \<notin> set cell)) \<and>
   (even (count_list a quoteChar) \<longrightarrow>
      parseLine (a @ commaChar # b) = parseLine a @ parseLine b) \<and>
   ((\<forall>i < length s. s ! i = commaChar \<longrightarrow> odd (count_list (take i s) quoteChar)) \<longrightarrow>
      parseLine s = [trim (filter (\<lambda>c. c \<noteq> quoteChar) s)]) \<and>
   (quoteChar \<notin> set s \<and> commaChar \<notin> set s \<longrightarrow> parseLine s = [trim s]) \<and>
   (quoteChar \<notin> set s \<longrightarrow> parseLine (quoteChar # s @ [quoteChar]) = [trim s]) \<and>
   (quoteChar \<notin> set s \<longrightarrow> parseLine (quoteChar # s) = [trim s])"
proof (intro conjI impI ballI)
  show "parseCSVOf (JSString s) = Inr (parseCSV s)" by simp
  show "parseCSVOf JSUndefined = Inl TypeError" by simp
  show "parseCSVOf JSNull = Inl TypeError" by simp
  show "parseCSV (a @ lineFeed # b) = parseCSV a @ parseCSV b"
    by (rule parseCSV_append)
  show "parseCSV (filter (\<lambda>c. c \<noteq> carriageReturn) s) = parseCSV s"
    by (rule parseCSV_strip)
  show "parseCSV s = []" if "\<forall>c \<in> set s. isWhiteSpace c"
    using that by (rule parseCSV_blank)
  show "parseCSV s = [parseLine s]"
    if "lineFeed \<notin> set s \<and> carriageReturn \<notin> set s \<and> trim s \<noteq> []"
    using that by (simp add: parseCSV_one_line)
  show "row \<noteq> []" if "row \<in> set (parseCSV s)" for row
    using that by (auto simp: parseCSV_def parseLine_nonempty)
  show "trim cell = cell" if "row \<in> set (parseCSV s)" "cell \<in> set row" for row cell
    using that by (rule parseCSV_cells)
  show "quoteChar \<notin> set cell" if "row \<in> set (parseCSV s)" "cell \<in> set row" for row cell
    using that by (rule parseCSV_cells)
  show "carriageReturn \<notin> set cell" if "row \<in> set (parseCSV s)" "cell \<in> set row" for row cell
    using that by (rule parseCSV_cells)
  show "lineFeed \<notin> set cell" if "row \<in> set (parseCSV s)" "cell \<in> set row" for row cell
    using that by (rule parseCSV_cells)
  show "parseLine (a @ commaChar # b) = parseLine a @ parseLine b"
    if "even (count_list a quoteChar)"
    using that by (rule parseLine_comma)
  show "parseLine s = [trim (filter (\<lambda>c. c \<noteq> quoteChar) s)]"
    if "\<forall>i < length s. s ! i = commaChar \<longrightarrow> odd (count_list (take i s) quoteChar)"
    using that by (rule parseLine_no_outside_comma)
  show "parseLine s = [trim s]" if "quoteChar \<notin> set s \<and> commaChar \<notin> set s"
    using that by (simp add: parseLine_plain)
  show "parseLine (quoteChar # s @ [quoteChar]) = [trim s]" if "quoteChar \<notin> set s"
    using that by (rule parseLine_quoted)
  show "parseLine (quoteChar # s) = [trim s]" if "quoteChar \<notin> set s"
    using that by (rule parseLine_unterminated)
qed

theorem parseCSV_total_lenient_witness:
  "even (count_list ''x'' quoteChar) \<and>
   quoteChar \<notin> set ''p, q'' \<and>
   lineFeed \<notin> set ''p, q'' \<and> carriageReturn \<notin> set ''p, q'' \<and> trim ''p, q'' \<noteq> [] \<and>
   isWhiteSpace CHR '' '' \<and> isWhiteSpace CHR 0x09 \<and> isWhiteSpace CHR 0xA0 \<and>
   parseCSVOf (JSString ''p, q'') = Inr [[''p'', ''q'']] \<and>
   parseCSV [CHR '' '', CHR 0x09, CHR 0xA0] = [] \<and>
   parseCSV (''x'' @ lineFeed # ''y'') = parseCSV ''x'' @ parseCSV ''y'' \<and>
   parseCSV ''p, q'' = [parseLine ''p, q''] \<and>
   parseLine (''x'' @ commaChar # ''y'') = parseLine ''x'' @ parseLine ''y'' \<and>
   parseLine (''x'' @ commaChar # '' '' @ [quoteChar] @ ''a,b'' @ [quoteChar]) = [''x'', ''a,b''] \<and>
   parseLine ('' '' @ [quoteChar] @ ''a,b'' @ [quoteChar]) = [''a,b''] \<and>
   parseLine ''pq'' = [''pq''] \<and>
   parseLine (quoteChar # ''p, q'' @ [quoteChar]) = [''p, q''] \<and>
   parseLine (quoteChar # ''p, q'') = [''p, q'']"
proof -
  let ?quoted = "'' '' @ [quoteChar] @ ''a,b'' @ [quoteChar]"
  have t: "trim ''p, q'' = ''p, q''" "trim ''pq'' = ''pq''" "trim ''x'' = ''x''"
    "trim '' a,b'' = ''a,b''" "trim ''p'' = ''p''" "trim '' q'' = ''q''"
    by (simp_all add: trim_def isWhiteSpace_def)
  have w: "isWhiteSpace CHR '' ''" "isWhiteSpace CHR 0x09" "isWhiteSpace CHR 0xA0"
    by (simp_all add: isWhiteSpace_def)
  have inside: "\<forall>i < length ?quoted. ?quoted ! i = commaChar \<longrightarrow>
      odd (count_list (take i ?quoted) quoteChar)"
    by (simp add: All_less_Suc2)
  have q: "parseLine ?quoted = [''a,b'']"
    using parseCSV_total_lenient [of ?quoted, THEN conjunct2, THEN conjunct2, THEN conjunct2, THEN conjunct2, THEN conjunct2, THEN conjunct2, THEN conjunct2, THEN conjunct2, THEN conjunct2, THEN conjunct1] inside t by simp
  have x: "parseLine ''x'' = [''x'']"
    using parseCSV_total_lenient [of "''x''", THEN conjunct2, THEN conjunct2, THEN conjunct2, THEN conjunct2, THEN conjunct2, THEN conjunct2, THEN conjunct2, THEN conjunct2, THEN conjunct2, THEN conjunct2, THEN conjunct1] t by simp
  have xy: "parseLine (''x'' @ commaChar # ''y'') = parseLine ''x'' @ parseLine ''y''"
    using parseCSV_total_lenient [of _ "''x''" "''y''", THEN conjunct2, THEN conjunct2, THEN conjunct2, THEN conjunct2, THEN conjunct2, THEN conjunct2, THEN conjunct2, THEN conjunct2, THEN conjunct1] by simp
  have xq: "parseLine (''x'' @ commaChar # ?quoted) = [''x'', ''a,b'']"
    using parseCSV_total_lenient [of _ "''x''" ?quoted, THEN conjunct2, THEN conjunct2, THEN conjunct2, THEN conjunct2, THEN conjunct2, THEN conjunct2, THEN conjunct2, THEN conjunct2, THEN conjunct1] q x by simp
  have p: "parseLine ''p'' = [''p'']" "parseLine '' q'' = [''q'']" "parseLine ''pq'' = [''pq'']"
    using parseCSV_total_lenient [of "''p''", THEN conjunct2, THEN conjunct2, THEN conjunct2, THEN conjunct2, THEN conjunct2, THEN conjunct2, THEN conjunct2, THEN conjunct2, THEN conjunct2, THEN conjunct2, THEN conjunct1]
      parseCSV_total_lenient [of "'' q''", THEN conjunct2, THEN conjunct2, THEN conjunct2, THEN conjunct2, THEN conjunct2, THEN conjunct2, THEN conjunct2, THEN conjunct2, THEN conjunct2, THEN conjunct2, THEN conjunct1]
      parseCSV_total_lenient [of "''pq''", THEN conjunct2, THEN conjunct2, THEN conjunct2, THEN conjunct2, THEN conjunct2, THEN conjunct2, THEN conjunct2, THEN conjunct2, THEN conjunct2, THEN conjunct2, THEN conjunct1] t
    by simp_all
  have pq: "parseLine ''p, q'' = [''p'', ''q'']"
    using parseCSV_total_lenient [of _ "''p''" "'' q''", THEN conjunct2, THEN conjunct2, THEN conjunct2, THEN conjunct2, THEN conjunct2, THEN conjunct2, THEN conjunct2, THEN conjunct2, THEN conjunct1] p by simp
  have one: "parseCSV ''p, q'' = [parseLine ''p, q'']"
    using parseCSV_total_lenient [of "''p, q''", THEN conjunct2, THEN conjunct2, THEN conjunct2, THEN conjunct2, THEN conjunct2, THEN conjunct2, THEN conjunct1] t by simp
  have call: "parseCSVOf (JSString ''p, q'') = Inr [[''p'', ''q'']]"
    using parseCSV_total_lenient [of "''p, q''", THEN conjunct1] one pq by simp
  have blank: "parseCSV [CHR '' '', CHR 0x09, CHR 0xA0] = []"
    using parseCSV_total_lenient [of "[CHR '' '', CHR 0x09, CHR 0xA0]", THEN conjunct2, THEN conjunct2, THEN conjunct2, THEN conjunct2, THEN conjunct2, THEN conjunct1] w by simp
  have lines: "parseCSV (''x'' @ lineFeed # ''y'') = parseCSV ''x'' @ parseCSV ''y''"
    using parseCSV_total_lenient [of _ "''x''" "''y''", THEN conjunct2, THEN conjunct2, THEN conjunct2, THEN conjunct1] by simp
  have quoted: "parseLine (quoteChar # ''p, q'' @ [quoteChar]) = [''p, q'']"
    using parseCSV_total_lenient [of "''p, q''", THEN conjunct2, THEN conjunct2, THEN conjunct2, THEN conjunct2, THEN conjunct2, THEN conjunct2, THEN conjunct2, THEN conjunct2, THEN conjunct2, THEN conjunct2, THEN conjunct2, THEN conjunct1] t by simp
  have open_quote: "parseLine (quoteChar # ''p, q'') = [''p, q'']"
    using parseCSV_total_lenient [of "''p, q''", THEN conjunct2, THEN conjunct2, THEN conjunct2, THEN conjunct2, THEN conjunct2, THEN conjunct2, THEN conjunct2, THEN conjunct2, THEN conjunct2, THEN conjunct2, THEN conjunct2, THEN conjunct2] t by simp
  have plain: "even (count_list ''x'' quoteChar)" "quoteChar \<notin> set ''p, q''"
    "lineFeed \<notin> set ''p, q''" "carriageReturn \<notin> set ''p, q''" "trim ''p, q'' \<noteq> []"
    by (simp_all add: t)
  from plain w call blank lines one xy xq q p(3) quoted open_quote
  show ?thesis by (intro conjI)
qed

subsection \<open>Round trip through the serializer\<close>

lemma parseLine_serializeCell:
  assumes "trim cell = cell" and "quoteChar \<notin> set cell"
  shows "parseLine (serializeCell cell) = [cell]"
proof (cases "commaChar \<in> set cell")
  case True
  with parseLine_quoted [OF assms(2)] assms(1) show ?thesis by (simp add: serializeCell_def)
next
  case False
  with parseLine_plain [OF assms(2)] assms(1) show ?thesis by (simp add: serializeCell_def)
qed

lemma serializeCell_quotes:
  "quoteChar \<notin> set cell \<Longrightarrow> even (count_list (serializeCell cell) quoteChar)"
  by (simp add: serializeCell_def count_list_0_iff)

lemma parseLine_serializeRow:
  "row \<noteq> [] \<Longrightarrow> \<forall>cell \<in> set row. trim cell = cell \<and> quoteChar \<notin> set cell \<Longrightarrow>
   parseLine (serializeRow row) = row"
proof (induction row rule: serializeRow.induct)
  case 1
  then show ?case by simp
next
  case (2 cell)
  then show ?case by (simp add: parseLine_serializeCell)
next
  case (3 cell c cs)
  from "3.prems" have cell: "trim cell = cell" "quoteChar \<notin> set cell" by simp_all
  from "3.prems" have rest: "\<forall>x \<in> set (c # cs). trim x = x \<and> quoteChar \<notin> set x" by simp
  from "3.IH" rest have IH: "parseLine (serializeRow (c # cs)) = c # cs" by simp
  have "parseLine (serializeRow (cell # c # cs)) =
      parseLine (serializeCell cell) @ parseLine (serializeRow (c # cs))"
    using parseLine_comma [OF serializeCell_quotes [OF cell(2)], of "serializeRow (c # cs)"]
    by simp
  with IH cell show ?case by (simp add: parseLine_serializeCell)
qed

lemma set_serializeCell: "set (serializeCell cell) \<subseteq> set cell \<union> {quoteChar}"
  by (auto simp: serializeCell_def)

lemma set_serializeRow:
  "set (serializeRow row) \<subseteq> (\<Union>cell \<in> set row. set cell) \<union> {quoteChar, commaChar}"
proof (induction row rule: serializeRow.induct)
  case 1
  show ?case by simp
next
  case (2 cell)
  from set_serializeCell [of cell] show ?case by auto
next
  case (3 cell c cs)
  from set_serializeCell [of cell] "3.IH" show ?case by auto
qed

lemma serializeRow_not_blank:
  assumes "row \<noteq> []" and "row \<noteq> [[]]" and "\<forall>cell \<in> set row. trim cell = cell"
  shows "trim (serializeRow row) \<noteq> []"
proof -
  have "\<exists>ch \<in> set (serializeRow row). \<not> isWhiteSpace ch"
  proof (cases row rule: serializeRow.cases)
    case 1
    with assms(1) show ?thesis by simp
  next
    case (2 cell)
    with assms have ne: "cell \<noteq> []" and tr: "trim cell = cell" by simp_all
    from trim_ends(1) [of cell] ne tr have "\<not> isWhiteSpace (hd cell)" by simp
    moreover from ne have "hd cell \<in> set (serializeCell cell)"
      by (simp add: serializeCell_def)
    ultimately show ?thesis using 2 by auto
  next
    case (3 cell c cs)
    have "\<not> isWhiteSpace commaChar" by (simp add: isWhiteSpace_def)
    moreover from 3 have "commaChar \<in> set (serializeRow row)" by simp
    ultimately show ?thesis by blast
  qed
  then show ?thesis by (simp add: trim_empty_iff)
qed

text \<open>
  C6 (as stated, refuted). The row whose only cell is \<open>'' a''\<close> has no comma at all, and
  serializing and parsing it gives the cell \<open>''a''\<close>: the parser trims.
\<close>

theorem roundtrip_untrimmed_counterexample:
  "parseCSV (serializeRow ['' a'']) \<noteq> [['' a'']]"
  by (simp add: parseCSV_def parseLine_def serializeCell_def trim_def isWhiteSpace_def)

text \<open>
  C6 (amended). For every non-empty row other than the row of one empty cell, whose cells
  are trimmed (they neither begin nor end with white space, the no-break space included)
  and hold no quote character, line feed or carriage return, parsing the serialized row
  gives exactly that row.
\<close>

theorem parse_serialize_roundtrip:
  assumes "row \<noteq> []" and "row \<noteq> [[]]"
    and "\<forall>cell \<in> set row. trim cell = cell \<and> quoteChar \<notin> set cell \<and>
           lineFeed \<notin> set cell \<and> carriageReturn \<notin> set cell"
  shows "parseCSV (serializeRow row) = [row]"
proof -
  from assms(3) have tr: "\<forall>cell \<in> set row. trim cell = cell"
    and trq: "\<forall>cell \<in> set row. trim cell = cell \<and> quoteChar \<notin> set cell" by simp_all
  from set_serializeRow [of row] assms(3)
  have "lineFeed \<notin> set (serializeRow row)" and "carriageReturn \<notin> set (serializeRow row)"
    by auto
  from parseCSV_one_line [OF this serializeRow_not_blank [OF assms(1,2) tr]]
  show ?thesis by (simp add: parseLine_serializeRow [OF assms(1) trq])
qed

theorem parse_serialize_roundtrip_witness:
  "[''Owls, The'', ''12'', ''''] \<noteq> [] \<and> [''Owls, The'', ''12'', ''''] \<noteq> [[]] \<and>
   trim ''Owls, The'' = ''Owls, The'' \<and> trim ''12'' = ''12'' \<and> trim '''' = '''' \<and>
   parseCSV (serializeRow [''Owls, The'', ''12'', '''']) = [[''Owls, The'', ''12'', '''']] \<and>
   trim [CHR 0xA0, CHR ''a''] \<noteq> [CHR 0xA0, CHR ''a'']"
proof -
  have nbsp: "trim [CHR 0xA0, CHR ''a''] \<noteq> [CHR 0xA0, CHR ''a'']"
    by (simp add: trim_def isWhiteSpace_def)
  have h: "\<forall>cell \<in> set [''Owls, The'', ''12'', ''''].
      trim cell = cell \<and> quoteChar \<notin> set cell \<and> lineFeed \<notin> set cell \<and>
      carriageReturn \<notin> set cell"
    by (simp add: trim_def isWhiteSpace_def)
  show ?thesis
    using h nbsp parse_serialize_roundtrip [of "[''Owls, The'', ''12'', '''']"] by simp
qed


subsection \<open>League registry resolver\<close>































subsection \<open>Join resolver\<close>

text \<open>A label that no division matches leaves the three fields of its side empty.\<close>

lemma joinLoop_no_match1:
  "find (labelMatches div1Full) divs = None \<Longrightarrow>
   div1name (joinLoop div1Full div2Full divs vars) = div1name vars \<and>
   div1conf (joinLoop div1Full div2Full divs vars) = div1conf vars \<and>
   div1abb (joinLoop div1Full div2Full divs vars) = div1abb vars"
  by (induction divs arbitrary: vars) (auto simp: Let_def labelMatches_def split: if_splits)

lemma joinLoop_no_match2:
  "find (labelMatches div2Full) divs = None \<Longrightarrow>
   div2name (joinLoop div1Full div2Full divs vars) = div2name vars \<and>
   div2conf (joinLoop div1Full div2Full divs vars) = div2conf vars \<and>
   div2abb (joinLoop div1Full div2Full divs vars) = div2abb vars"
  by (induction divs arbitrary: vars) (auto simp: Let_def labelMatches_def split: if_splits)

lemma joinDivisions_unmatched:
  "find (labelMatches div1Full) divs = None \<Longrightarrow>
   div1name (joinDivisions div1Full div2Full divs) = [] \<and>
   div1conf (joinDivisions div1Full div2Full divs) = [] \<and>
   div1abb (joinDivisions div1Full div2Full divs) = []"
  using joinLoop_no_match1 [of div1Full divs div2Full joinStart]
  by (simp add: joinDivisions_def joinStart_def)

text \<open>
  Once the abbreviation variable of a side is non-empty, the loop never changes that side.
\<close>

lemma joinLoop_found1:
  "div1abb vars \<noteq> [] \<Longrightarrow>
   div1name (joinLoop div1Full div2Full divs vars) = div1name vars \<and>
   div1conf (joinLoop div1Full div2Full divs vars) = div1conf vars \<and>
   div1abb (joinLoop div1Full div2Full divs vars) = div1abb vars"
  by (induction divs arbitrary: vars) (auto simp: Let_def)

text \<open>
  When every division has a non-empty abbreviation, the first side is resolved to the
  first division in list order whose full name equals the label.
\<close>

lemma joinLoop_first_match1:
  assumes "\<forall>d \<in> set divs. abb d \<noteq> []" and "div1abb vars = []"
    and "find (labelMatches div1Full) divs = Some d"
  shows "div1name (joinLoop div1Full div2Full divs vars) = divName d \<and>
         div1conf (joinLoop div1Full div2Full divs vars) = conf d \<and>
         div1abb (joinLoop div1Full div2Full divs vars) = abb d"
  using assms
proof (induction divs arbitrary: vars)
  case Nil
  then show ?case by simp
next
  case (Cons x divs)
  show ?case
  proof (cases "labelMatches div1Full x")
    case True
    then have T: "div1Full = Some (fullNameOf x)" by (simp add: labelMatches_def)
    from True Cons.prems have d: "d = x" by simp
    from Cons.prems(1) have ax: "abb x \<noteq> []" by simp
    let ?vars1 = "vars\<lparr>div1name := divName x, div1conf := conf x, div1abb := abb x\<rparr>"
    let ?vars2 = "(if div2abb ?vars1 = [] \<and> div2Full = Some (fullNameOf x)
                   then ?vars1\<lparr>div2name := divName x, div2conf := conf x, div2abb := abb x\<rparr>
                   else ?vars1)"
    have v2: "div1name ?vars2 = divName x \<and> div1conf ?vars2 = conf x \<and> div1abb ?vars2 = abb x"
      by simp
    have step: "joinLoop div1Full div2Full (x # divs) vars =
        (if div1abb ?vars2 \<noteq> [] \<and> div2abb ?vars2 \<noteq> [] then ?vars2
         else joinLoop div1Full div2Full divs ?vars2)"
      using T Cons.prems(2) by (simp add: Let_def)
    have fnd: "div1abb ?vars2 \<noteq> []" using ax by simp
    show ?thesis
      unfolding step d using v2 joinLoop_found1 [OF fnd, of div1Full div2Full divs]
      by (simp del: joinLoop.simps)
  next
    case False
    then have F: "div1Full \<noteq> Some (fullNameOf x)" by (simp add: labelMatches_def)
    from False Cons.prems(3) have rest: "find (labelMatches div1Full) divs = Some d"
      by simp
    from Cons.prems(1) have abbs: "\<forall>d \<in> set divs. abb d \<noteq> []" by simp
    let ?vars2 = "(if div2abb vars = [] \<and> div2Full = Some (fullNameOf x)
                   then vars\<lparr>div2name := divName x, div2conf := conf x, div2abb := abb x\<rparr>
                   else vars)"
    have e: "div1abb ?vars2 = []" using Cons.prems(2) by simp
    have step: "joinLoop div1Full div2Full (x # divs) vars = joinLoop div1Full div2Full divs ?vars2"
      using F Cons.prems(2) by (simp add: Let_def)
    show ?thesis unfolding step by (rule Cons.IH [OF abbs e rest])
  qed
qed

text \<open>
  C8 (the code at the failing input). The label \<open>''East Coast A''\<close> equals the full name of
  both divisions of the list; the first one in list order has a blank abbreviation, and
  the game is given the name, conference and abbreviation of the second one.
\<close>

theorem join_blank_abbreviation_overwritten:
  "fullNameOf blankAbbDivision = ''East Coast A'' \<and>
   fullNameOf laterDivision = ''East Coast A'' \<and>
   find (labelMatches (Some ''East Coast A'')) [blankAbbDivision, laterDivision]
     = Some blankAbbDivision \<and>
   div1name (joinDivisions (Some ''East Coast A'') None [blankAbbDivision, laterDivision]) = ''A'' \<and>
   div1conf (joinDivisions (Some ''East Coast A'') None [blankAbbDivision, laterDivision])
     = ''East Coast'' \<and>
   div1abb (joinDivisions (Some ''East Coast A'') None [blankAbbDivision, laterDivision]) = ''ECA'' \<and>
   div1name (joinDivisions (Some ''East Coast A'') None [blankAbbDivision, laterDivision])
     \<noteq> divName blankAbbDivision"
  by (simp add: joinDivisions_def joinStart_def fullNameOf_def labelMatches_def
      blankAbbDivision_def laterDivision_def Let_def)


subsection \<open>Leaderboard selector: the slot rule\<close>

lemma replicate3: "replicate 3 x = [x, x, x]"
  by (simp add: numeral_3_eq_3)

lemma replicate5: "replicate 5 x = [x, x, x, x, x]"
  by (simp add: numeral_eq_Suc)

lemma upt3: "[0..<3] = [0, 1, 2]"
  by (simp add: upt_rec)

lemma upt5: "[0..<5] = [0, 1, 2, 3, 4]"
  by (simp add: upt_rec)

lemma slotStep_length [simp]: "length (slotStep better name m slots cand) = length slots"
  by (simp add: slotStep_def)

lemma slotStep_other: "j \<noteq> m \<Longrightarrow> slotStep better name m slots cand ! j = slots ! j"
  by (simp add: slotStep_def)

lemma slotStep_take: "take m (slotStep better name m slots cand) = take m slots"
  by (simp add: slotStep_def)

lemma scanSlot_length [simp]: "length (scanSlot better name pool slots m) = length slots"
  unfolding scanSlot_def by (induction pool arbitrary: slots) simp_all

lemma scanSlot_other: "j \<noteq> m \<Longrightarrow> scanSlot better name pool slots m ! j = slots ! j"
  unfolding scanSlot_def by (induction pool arbitrary: slots) (simp_all add: slotStep_other)

lemma scanSlot_take: "take m (scanSlot better name pool slots m) = take m slots"
  unfolding scanSlot_def by (induction pool arbitrary: slots) (simp_all add: slotStep_take)

text \<open>
  The holder of slot \<open>m\<close> after the scan: the holder before it, or a member of the pool
  whose name is in none of the earlier slots. \<open>elig\<close> is any property that a better
  candidate inherits from the holder it replaces or gains by replacing the holder
  the scan started with.
\<close>

lemma scanSlot_holder:
  assumes "m < length slots"
    and "\<And>c h. better c h \<Longrightarrow> h = slots ! m \<or> elig h \<Longrightarrow> elig c"
  shows "scanSlot better name pool slots m ! m = slots ! m \<or>
         (scanSlot better name pool slots m ! m \<in> set pool \<and>
          elig (scanSlot better name pool slots m ! m) \<and>
          name (scanSlot better name pool slots m ! m) \<notin> name ` set (take m slots))"
proof -
  have "length cur = length slots \<Longrightarrow> take m cur = take m slots \<Longrightarrow>
        cur ! m = slots ! m \<or> (cur ! m \<in> set seen \<and> elig (cur ! m) \<and>
          name (cur ! m) \<notin> name ` set (take m slots)) \<Longrightarrow>
        foldl (slotStep better name m) cur pool ! m = slots ! m \<or>
        (foldl (slotStep better name m) cur pool ! m \<in> set seen \<union> set pool \<and>
         elig (foldl (slotStep better name m) cur pool ! m) \<and>
         name (foldl (slotStep better name m) cur pool ! m) \<notin> name ` set (take m slots))"
    for cur seen
  proof (induction pool arbitrary: cur seen)
    case Nil
    then show ?case by auto
  next
    case (Cons cand pool)
    let ?next = "slotStep better name m cur cand"
    have len: "length ?next = length slots" using Cons.prems(1) by simp
    have tk: "take m ?next = take m slots" using Cons.prems(2) by (simp add: slotStep_take)
    have holder: "?next ! m = slots ! m \<or> (?next ! m \<in> set (seen @ [cand]) \<and> elig (?next ! m) \<and>
        name (?next ! m) \<notin> name ` set (take m slots))"
    proof (cases "better cand (cur ! m) \<and> name cand \<notin> name ` set (take m cur)")
      case True
      then have b: "better cand (cur ! m)" and n: "name cand \<notin> name ` set (take m slots)"
        using Cons.prems(2) by simp_all
      from Cons.prems(3) have "cur ! m = slots ! m \<or> elig (cur ! m)" by blast
      with assms(2) [OF b] have "elig cand" by blast
      moreover from True assms(1) Cons.prems(1) have "?next ! m = cand"
        by (simp add: slotStep_def)
      ultimately show ?thesis using n by simp
    next
      case False
      then have "?next = cur" by (auto simp: slotStep_def)
      with Cons.prems(3) show ?thesis by auto
    qed
    from Cons.IH [OF len tk holder] show ?case by auto
  qed
  from this [of slots "[]"] show ?thesis by (simp add: scanSlot_def)
qed

lemma fillSlots_invariant:
  assumes closure: "\<And>c h. better c h \<Longrightarrow> h = sentinel \<or> elig h \<Longrightarrow> elig c"
  shows "k \<le> n \<Longrightarrow>
    slotsFilled name elig pool sentinel n k
      (foldl (scanSlot better name pool) (replicate n sentinel) [0..<k])"
proof (induction k)
  case 0
  show ?case by (simp add: slotsFilled_def)
next
  case (Suc k)
  let ?slots = "foldl (scanSlot better name pool) (replicate n sentinel) [0..<k]"
  let ?new = "scanSlot better name pool ?slots k"
  from Suc have inv: "slotsFilled name elig pool sentinel n k ?slots" and k: "k < n" by simp_all
  from inv have len: "length ?slots = n"
    and rest: "\<And>j. j < n \<Longrightarrow> k \<le> j \<Longrightarrow> ?slots ! j = sentinel"
    and filled: "\<And>j. j < k \<Longrightarrow> ?slots ! j = sentinel \<or>
        (?slots ! j \<in> set pool \<and> elig (?slots ! j) \<and>
         name (?slots ! j) \<notin> name ` set (take j ?slots))"
    by (simp_all add: slotsFilled_def)
  have tk: "take j ?new = take j ?slots" if "j \<le> k" for j
  proof -
    have "take j ?new = take j (take k ?new)" using that by (simp add: min_def)
    also have "\<dots> = take j (take k ?slots)" by (simp only: scanSlot_take)
    also have "\<dots> = take j ?slots" using that by (simp add: min_def)
    finally show ?thesis .
  qed
  have holder: "?new ! k = sentinel \<or> (?new ! k \<in> set pool \<and> elig (?new ! k) \<and>
      name (?new ! k) \<notin> name ` set (take k ?new))"
  proof -
    from k len have kl: "k < length ?slots" by simp
    from rest [of k] k have s: "?slots ! k = sentinel" by simp
    have cl: "\<And>c h. better c h \<Longrightarrow> h = ?slots ! k \<or> elig h \<Longrightarrow> elig c"
      using closure s by simp
    from scanSlot_holder [of k ?slots better elig name pool, OF kl cl] s tk [of k]
    show ?thesis by simp
  qed
  have "slotsFilled name elig pool sentinel n (Suc k) ?new"
    unfolding slotsFilled_def
  proof (intro conjI allI impI)
    show "length ?new = n" using len by simp
  next
    fix j assume "j < n" "Suc k \<le> j"
    then show "?new ! j = sentinel" using rest [of j] by (simp add: scanSlot_other)
  next
    fix j assume j: "j < Suc k"
    show "?new ! j = sentinel \<or> (?new ! j \<in> set pool \<and> elig (?new ! j) \<and>
        name (?new ! j) \<notin> name ` set (take j ?new))"
    proof (cases "j = k")
      case True
      with holder show ?thesis by simp
    next
      case False
      with j have jk: "j < k" by simp
      then have "?new ! j = ?slots ! j" by (simp add: scanSlot_other)
      moreover from jk have "take j ?new = take j ?slots" by (simp add: tk)
      ultimately show ?thesis using filled [OF jk] by simp
    qed
  qed
  then show ?case by simp
qed

lemma distinct_filter_names:
  "(\<And>j. j < length xs \<Longrightarrow> P (xs ! j) \<Longrightarrow> f (xs ! j) \<notin> f ` set (take j xs)) \<Longrightarrow>
   distinct (map f (filter P xs))"
proof (induction xs rule: rev_induct)
  case Nil
  show ?case by simp
next
  case (snoc x xs)
  have "distinct (map f (filter P xs))"
  proof (rule snoc.IH)
    fix j assume j: "j < length xs" and p: "P (xs ! j)"
    from snoc.prems [of j] j p show "f (xs ! j) \<notin> f ` set (take j xs)"
      by (simp add: nth_append)
  qed
  moreover have "f x \<notin> f ` set (filter P xs)" if "P x"
    using snoc.prems [of "length xs"] that by auto
  ultimately show ?case by auto
qed

text \<open>
  What every leaderboard built by \<open>fillSlots\<close> satisfies: the number of slots is fixed;
  each slot holds the sentinel or an eligible member of the pool; the filled slots hold
  different names, so there are at most as many of them as eligible members.
\<close>

lemma fillSlots_result:
  assumes closure: "\<And>c h. better c h \<Longrightarrow> h = sentinel \<or> elig h \<Longrightarrow> elig c"
  shows "length (fillSlots better name pool sentinel n) = n"
    and "e \<in> set (fillSlots better name pool sentinel n) \<Longrightarrow>
           e = sentinel \<or> (e \<in> set pool \<and> elig e)"
    and "distinct (map name (filter (\<lambda>e. e \<noteq> sentinel) (fillSlots better name pool sentinel n)))"
    and "length (filter (\<lambda>e. e \<noteq> sentinel) (fillSlots better name pool sentinel n))
           \<le> length (filter elig pool)"
proof -
  let ?out = "fillSlots better name pool sentinel n"
  let ?filled = "filter (\<lambda>e. e \<noteq> sentinel) ?out"
  from fillSlots_invariant [of better sentinel elig n n name pool, OF closure]
  have inv: "slotsFilled name elig pool sentinel n n ?out" by (simp add: fillSlots_def)
  then show len: "length ?out = n" by (simp add: slotsFilled_def)
  from inv have filled: "\<And>j. j < n \<Longrightarrow> ?out ! j = sentinel \<or>
      (?out ! j \<in> set pool \<and> elig (?out ! j) \<and> name (?out ! j) \<notin> name ` set (take j ?out))"
    by (simp add: slotsFilled_def)
  have mem: "x = sentinel \<or> (x \<in> set pool \<and> elig x)" if "x \<in> set ?out" for x
  proof -
    from that obtain j where "j < length ?out" "?out ! j = x" by (auto simp: in_set_conv_nth)
    with filled [of j] len show ?thesis by auto
  qed
  from mem show "e \<in> set ?out \<Longrightarrow> e = sentinel \<or> (e \<in> set pool \<and> elig e)" .
  show d: "distinct (map name ?filled)"
  proof (rule distinct_filter_names)
    fix j assume "j < length ?out" "?out ! j \<noteq> sentinel"
    with filled [of j] len show "name (?out ! j) \<notin> name ` set (take j ?out)" by auto
  qed
  from d have "distinct ?filled" unfolding distinct_map by (rule conjunct1)
  then have "card (set ?filled) = length ?filled" by (rule distinct_card)
  then have "length ?filled = card (set ?filled)" by (rule sym)
  also have "\<dots> \<le> card (set (filter elig pool))"
  proof (rule card_mono)
    show "finite (set (filter elig pool))" by simp
    show "set ?filled \<subseteq> set (filter elig pool)" using mem by auto
  qed
  also have "\<dots> \<le> length (filter elig pool)" by (rule card_length)
  finally show "length ?filled \<le> length (filter elig pool)" .
qed

text \<open>
  The holder of a slot after the scan is beaten by no member of the pool whose name is
  free, provided that being better is irreflexive and that a candidate which does not
  beat a holder does not beat its replacement either.
\<close>

lemma scanSlot_best:
  assumes irrefl: "\<And>c. \<not> better c c"
    and negtrans: "\<And>x c h. \<not> better x h \<Longrightarrow> better c h \<Longrightarrow> \<not> better x c"
    and m: "m < length slots"
    and x: "x \<in> set pool" "name x \<notin> name ` set (take m slots)"
  shows "\<not> better x (scanSlot better name pool slots m ! m)"
proof -
  have "length cur = length slots \<Longrightarrow> take m cur = take m slots \<Longrightarrow>
        (\<And>y. y \<in> set seen \<Longrightarrow> name y \<notin> name ` set (take m slots) \<Longrightarrow> \<not> better y (cur ! m)) \<Longrightarrow>
        y \<in> set seen \<union> set pool \<Longrightarrow> name y \<notin> name ` set (take m slots) \<Longrightarrow>
        \<not> better y (foldl (slotStep better name m) cur pool ! m)"
    for cur seen y
  proof (induction pool arbitrary: cur seen)
    case Nil
    then show ?case by simp
  next
    case (Cons cand pool)
    let ?next = "slotStep better name m cur cand"
    have len: "length ?next = length slots" using Cons.prems(1) by simp
    have tk: "take m ?next = take m slots" using Cons.prems(2) by (simp add: slotStep_take)
    have best: "\<not> better z (?next ! m)"
      if z: "z \<in> set (seen @ [cand])" "name z \<notin> name ` set (take m slots)" for z
    proof (cases "better cand (cur ! m) \<and> name cand \<notin> name ` set (take m cur)")
      case True
      with m Cons.prems(1) have nx: "?next ! m = cand" by (simp add: slotStep_def)
      show ?thesis
      proof (cases "z = cand")
        case True
        with nx irrefl show ?thesis by simp
      next
        case False
        with z have "z \<in> set seen" by simp
        from Cons.prems(3) [OF this z(2)] have "\<not> better z (cur ! m)" .
        moreover from True have "better cand (cur ! m)" by simp
        ultimately have "\<not> better z cand" by (rule negtrans)
        with nx show ?thesis by simp
      qed
    next
      case False
      then have nx: "?next = cur" by (auto simp: slotStep_def)
      show ?thesis
      proof (cases "z \<in> set seen")
        case True
        from Cons.prems(3) [OF this z(2)] nx show ?thesis by simp
      next
        case notseen: False
        with z have "z = cand" by simp
        with False z(2) Cons.prems(2) nx show ?thesis by simp
      qed
    qed
    from Cons.prems(4) have "y \<in> set (seen @ [cand]) \<union> set pool" by auto
    from Cons.IH [OF len tk best this Cons.prems(5)] show ?case by simp
  qed
  from this [of slots "[]" x] x show ?thesis by (simp add: scanSlot_def)
qed

lemma fillSlots_prefix:
  "m < k \<Longrightarrow> k \<le> n \<Longrightarrow>
   take (Suc m) (foldl (scanSlot better name pool) (replicate n sentinel) [0..<k]) =
   take (Suc m) (foldl (scanSlot better name pool) (replicate n sentinel) [0..<Suc m])"
proof (induction k)
  case 0
  then show ?case by simp
next
  case (Suc k)
  show ?case
  proof (cases "m = k")
    case True
    then show ?thesis by simp
  next
    case False
    with Suc.prems have mk: "m < k" and kn: "k \<le> n" by simp_all
    let ?slots = "foldl (scanSlot better name pool) (replicate n sentinel) [0..<k]"
    have "take (Suc m) (scanSlot better name pool ?slots k) =
        take (Suc m) (take k (scanSlot better name pool ?slots k))"
      using mk by (simp add: min_def)
    also have "\<dots> = take (Suc m) (take k ?slots)" by (simp only: scanSlot_take)
    also have "\<dots> = take (Suc m) ?slots" using mk by (simp add: min_def)
    finally show ?thesis using Suc.IH [OF mk kn] by simp
  qed
qed

lemma fillSlots_best:
  assumes irrefl: "\<And>c. \<not> better c c"
    and negtrans: "\<And>x c h. \<not> better x h \<Longrightarrow> better c h \<Longrightarrow> \<not> better x c"
    and m: "m < n"
    and x: "x \<in> set pool" "name x \<notin> name ` set (take m (fillSlots better name pool sentinel n))"
  shows "\<not> better x (fillSlots better name pool sentinel n ! m)"
proof -
  let ?out = "fillSlots better name pool sentinel n"
  let ?before = "foldl (scanSlot better name pool) (replicate n sentinel) [0..<m]"
  let ?after = "scanSlot better name pool ?before m"
  have len: "length ?before = n"
    by (induction m) simp_all
  from fillSlots_prefix [of m n n better name pool sentinel] m
  have pre: "take (Suc m) ?out = take (Suc m) ?after" by (simp add: fillSlots_def)
  have "?out ! m = take (Suc m) ?out ! m" by simp
  also have "\<dots> = ?after ! m" unfolding pre by simp
  finally have holder: "?out ! m = ?after ! m" .
  have "take m ?out = take m (take (Suc m) ?out)" by (simp add: min_def)
  also have "\<dots> = take m ?after" unfolding pre by (simp add: min_def)
  also have "\<dots> = take m ?before" by (rule scanSlot_take)
  finally have names: "take m ?out = take m ?before" .
  from m len have ml: "m < length ?before" by simp
  from scanSlot_best [of better m ?before x pool name, OF irrefl negtrans ml x(1)] x(2) names
  show ?thesis unfolding holder by simp
qed


subsection \<open>The four loops of the source follow the slot rule\<close>

lemma foldl_agree:
  assumes "\<And>s c. I s \<Longrightarrow> c \<in> set xs \<Longrightarrow> f s c = g s c"
    and "\<And>s c. I s \<Longrightarrow> c \<in> set xs \<Longrightarrow> I (g s c)"
    and "I s0"
  shows "foldl f s0 xs = foldl g s0 xs"
  using assms by (induction xs arbitrary: s0) simp_all

lemma earlier_slots:
  assumes "m \<le> length slots"
  shows "list_ex (\<lambda>p. name cand = name (slots ! p)) [0..<m] \<longleftrightarrow>
         name cand \<in> name ` set (take m slots)"
proof -
  from assms have "set (take m slots) = (!) slots ` {0..<m}" by (simp add: nth_image)
  then show ?thesis by (auto simp: list_ex_iff)
qed

lemma pointsStep_rule:
  "m \<le> length slots \<Longrightarrow> pointsStep m slots cand = slotStep betterPoints fullName m slots cand"
  using earlier_slots [of m slots fullName cand]
  by (simp add: pointsStep_def slotStep_def betterPoints_def Let_def)

lemma three_slots:
  assumes "length slots = 3"
  shows "take 0 slots = []" and "take 1 slots = [slots ! 0]"
    and "take 2 slots = [slots ! 0, slots ! 1]"
proof -
  from assms obtain a b c where "slots = [a, b, c]"
    by (auto simp: length_Suc_conv numeral_3_eq_3)
  then show "take 0 slots = []" and "take 1 slots = [slots ! 0]"
    and "take 2 slots = [slots ! 0, slots ! 1]"
    by (simp_all add: numeral_2_eq_2)
qed

lemma goalsStep_rule:
  assumes "length slots = 3" and "m < 3"
  shows "goalsStep m slots cand = slotStep betterGoals fullName m slots cand"
proof -
  from assms(2) consider "m = 0" | "m = 1" | "m = 2" by linarith
  then show ?thesis
  proof cases
    case 1
    then show ?thesis by (simp add: goalsStep_def slotStep_def betterGoals_def)
  next
    case 2
    then show ?thesis
      using three_slots(2) [OF assms(1)]
      by (simp add: goalsStep_def slotStep_def betterGoals_def)
  next
    case 3
    then show ?thesis
      using three_slots(3) [OF assms(1)]
      by (simp add: goalsStep_def slotStep_def betterGoals_def)
  qed
qed

lemma ppgStep_rule:
  assumes "length slots = 3" and "m < 3"
  shows "ppgStep m slots cand = slotStep betterPPG fullName m slots cand"
proof -
  from assms(2) consider "m = 0" | "m = 1" | "m = 2" by linarith
  then show ?thesis
  proof cases
    case 1
    then show ?thesis by (simp add: ppgStep_def slotStep_def betterPPG_def)
  next
    case 2
    then show ?thesis
      using three_slots(2) [OF assms(1)]
      by (simp add: ppgStep_def slotStep_def betterPPG_def)
  next
    case 3
    then show ?thesis
      using three_slots(3) [OF assms(1)]
      by (simp add: ppgStep_def slotStep_def betterPPG_def)
  qed
qed

lemma gaaStep_rule:
  assumes "length slots = 3" and "m < 3"
  shows "gaaStep GPmin m slots cand = slotStep (betterGAA GPmin) fullName m slots cand"
proof -
  from assms(2) consider "m = 0" | "m = 1" | "m = 2" by linarith
  then show ?thesis
  proof cases
    case 1
    then show ?thesis by (simp add: gaaStep_def slotStep_def betterGAA_def)
  next
    case 2
    then show ?thesis
      using three_slots(2) [OF assms(1)]
      by (simp add: gaaStep_def slotStep_def betterGAA_def)
  next
    case 3
    then show ?thesis
      using three_slots(3) [OF assms(1)]
      by (simp add: gaaStep_def slotStep_def betterGAA_def)
  qed
qed

lemma pointsSlot_rule:
  "m \<le> length slots \<Longrightarrow>
   pointsSlot pool slots m = scanSlot betterPoints fullName pool slots m"
  unfolding pointsSlot_def scanSlot_def
  by (rule foldl_agree [where I = "\<lambda>s. length s = length slots"])
     (simp_all add: pointsStep_rule)

lemma goalsSlot_rule:
  "length slots = 3 \<Longrightarrow> m < 3 \<Longrightarrow>
   goalsSlot pool slots m = scanSlot betterGoals fullName pool slots m"
  unfolding goalsSlot_def scanSlot_def
  by (rule foldl_agree [where I = "\<lambda>s. length s = 3"]) (simp_all add: goalsStep_rule)

lemma ppgSlot_rule:
  "length slots = 3 \<Longrightarrow> m < 3 \<Longrightarrow>
   ppgSlot pool slots m = scanSlot betterPPG fullName pool slots m"
  unfolding ppgSlot_def scanSlot_def
  by (rule foldl_agree [where I = "\<lambda>s. length s = 3"]) (simp_all add: ppgStep_rule)

lemma gaaSlot_rule:
  "length slots = 3 \<Longrightarrow> m < 3 \<Longrightarrow>
   gaaSlot GPmin pool slots m = scanSlot (betterGAA GPmin) fullName pool slots m"
  unfolding gaaSlot_def scanSlot_def
  by (rule foldl_agree [where I = "\<lambda>s. length s = 3"]) (simp_all add: gaaStep_rule)

lemma points_fold_rule:
  "foldl (pointsSlot pool) (replicate 5 nullPlayer) [0..<5] =
   fillSlots betterPoints fullName pool nullPlayer 5"
  unfolding fillSlots_def
  by (rule foldl_agree [where I = "\<lambda>s. length s = 5"]) (simp_all add: pointsSlot_rule)

lemma goals_fold_rule:
  "foldl (goalsSlot pool) (replicate 3 nullPlayer) [0..<3] =
   fillSlots betterGoals fullName pool nullPlayer 3"
  unfolding fillSlots_def
  by (rule foldl_agree [where I = "\<lambda>s. length s = 3"]) (simp_all add: goalsSlot_rule)

lemma ppg_fold_rule:
  "foldl (ppgSlot pool) (replicate 3 nullPlayer) [0..<3] =
   fillSlots betterPPG fullName pool nullPlayer 3"
  unfolding fillSlots_def
  by (rule foldl_agree [where I = "\<lambda>s. length s = 3"]) (simp_all add: ppgSlot_rule)

lemma topGAAOf_rule:
  "topGAAOf pool = fillSlots (betterGAA (GPminOf pool)) fullName pool nullGoalie 3"
  unfolding topGAAOf_def fillSlots_def
  by (rule foldl_agree [where I = "\<lambda>s. length s = 3"]) (simp_all add: gaaSlot_rule)

subsection \<open>processDivision: the early return and the four lists\<close>

lemma processDivision_no_games: "processDivision sheets [] isPlayoff = Inl TypeError"
  by (simp add: processDivision_def)

lemma processDivision_few:
  assumes "divisionGames \<noteq> []"
    and "length (divisionPlayers sheets divisionGames isPlayoff) < 5"
  shows "processDivision sheets divisionGames isPlayoff = Inr None"
proof -
  from assms(1) obtain g gs where "divisionGames = g # gs" by (cases divisionGames) simp_all
  with assms(2) show ?thesis
    by (simp add: processDivision_def divisionPlayers_def divisionLabel_def Let_def)
qed

lemma processDivision_lists:
  assumes "divisionGames \<noteq> []"
    and "5 \<le> length (divisionPlayers sheets divisionGames isPlayoff)"
  shows "processDivision sheets divisionGames isPlayoff =
    Inr (Some
      \<lparr>topPoints = fillSlots betterPoints fullName
         (divisionPlayers sheets divisionGames isPlayoff) nullPlayer 5,
       topGoals = fillSlots betterGoals fullName
         (divisionPlayers sheets divisionGames isPlayoff) nullPlayer 3,
       topPPG = fillSlots betterPPG fullName
         (divisionPlayers sheets divisionGames isPlayoff) nullPlayer 3,
       topGAA = topGAAOf (divisionGoalies sheets divisionGames isPlayoff)\<rparr>)"
proof -
  from assms(1) obtain g gs where "divisionGames = g # gs" by (cases divisionGames) simp_all
  with assms(2) show ?thesis
    unfolding points_fold_rule [symmetric] goals_fold_rule [symmetric] ppg_fold_rule [symmetric]
    by (simp add: processDivision_def divisionPlayers_def divisionGoalies_def divisionLabel_def
        Let_def)
qed

lemma processDivision_built:
  assumes "processDivision sheets divisionGames isPlayoff = Inr (Some boards)"
  shows "divisionGames \<noteq> []"
    and "5 \<le> length (divisionPlayers sheets divisionGames isPlayoff)"
    and "topPoints boards = fillSlots betterPoints fullName
           (divisionPlayers sheets divisionGames isPlayoff) nullPlayer 5"
    and "topGoals boards = fillSlots betterGoals fullName
           (divisionPlayers sheets divisionGames isPlayoff) nullPlayer 3"
    and "topPPG boards = fillSlots betterPPG fullName
           (divisionPlayers sheets divisionGames isPlayoff) nullPlayer 3"
    and "topGAA boards = topGAAOf (divisionGoalies sheets divisionGames isPlayoff)"
proof -
  show g: "divisionGames \<noteq> []"
    using assms processDivision_no_games [of sheets isPlayoff] by auto
  show p: "5 \<le> length (divisionPlayers sheets divisionGames isPlayoff)"
  proof (rule ccontr)
    assume "\<not> 5 \<le> length (divisionPlayers sheets divisionGames isPlayoff)"
    then have "length (divisionPlayers sheets divisionGames isPlayoff) < 5" by simp
    from processDivision_few [OF g this] assms show False by simp
  qed
  from processDivision_lists [OF g p] assms
  have b: "boards =
      \<lparr>topPoints = fillSlots betterPoints fullName
         (divisionPlayers sheets divisionGames isPlayoff) nullPlayer 5,
       topGoals = fillSlots betterGoals fullName
         (divisionPlayers sheets divisionGames isPlayoff) nullPlayer 3,
       topPPG = fillSlots betterPPG fullName
         (divisionPlayers sheets divisionGames isPlayoff) nullPlayer 3,
       topGAA = topGAAOf (divisionGoalies sheets divisionGames isPlayoff)\<rparr>"
    by simp
  show "topPoints boards = fillSlots betterPoints fullName
      (divisionPlayers sheets divisionGames isPlayoff) nullPlayer 5"
    by (subst b) simp
  show "topGoals boards = fillSlots betterGoals fullName
      (divisionPlayers sheets divisionGames isPlayoff) nullPlayer 3"
    by (subst b) simp
  show "topPPG boards = fillSlots betterPPG fullName
      (divisionPlayers sheets divisionGames isPlayoff) nullPlayer 3"
    by (subst b) simp
  show "topGAA boards = topGAAOf (divisionGoalies sheets divisionGames isPlayoff)"
    by (subst b) simp
qed

text \<open>The example sheets, evaluated.\<close>

lemma player_fields:
  "points playerA = 10" "goals playerA = 5" "ppg playerA = 1" "fullName playerA = Some ''A One''"
  "points playerB = 10" "goals playerB = 7" "ppg playerB = 1" "fullName playerB = Some ''B Two''"
  "points playerC = 9" "goals playerC = 9" "ppg playerC = 1" "fullName playerC = Some ''C Three''"
  "points playerD = 4" "goals playerD = 2" "ppg playerD = 1 / 2"
  "fullName playerD = Some ''D Four''"
  "points playerE = 0" "goals playerE = 0" "ppg playerE = 0" "fullName playerE = Some ''E Five''"
  "points nullPlayer = 0" "goals nullPlayer = 0" "ppg nullPlayer = 0" "fullName nullPlayer = None"
  by (simp_all add: playerA_def playerB_def playerC_def playerD_def playerE_def nullPlayer_def)

lemma player_labels:
  "divLabel playerA = Some ''East A''" "divLabel playerB = Some ''East A''"
  "divLabel playerC = Some ''East A''" "divLabel playerD = Some ''East A''"
  "divLabel playerE = Some ''East A''" "divLabel playerW = Some ''West A''"
  "divLabel starterTwenty = Some ''East A''" "divLabel backupEight = Some ''East A''"
  "divisionLabel [eastGame] = ''East A''"
  by (simp_all add: playerA_def playerB_def playerC_def playerD_def playerE_def playerW_def
      starterTwenty_def backupEight_def divisionLabel_def eastGame_def)

lemma example_pools:
  "divisionPlayers shortSheets [eastGame] False = [playerA, playerB, playerC]"
  "divisionPlayers eastSheets [eastGame] False = [playerA, playerB, playerC, playerD, playerE]"
  "divisionPlayers eastSheets [eastGame] True = [playerA, playerB, playerC, playerD, playerE]"
  "divisionGoalies eastSheets [eastGame] False = [starterTwenty, backupEight]"
  "divisionGoalies eastSheets [eastGame] True = []"
  by (simp_all add: divisionPlayers_def divisionGoalies_def shortSheets_def eastSheets_def
      player_labels)

lemma example_points:
  "fillSlots betterPoints fullName [playerA, playerB, playerC, playerD, playerE] nullPlayer 5 =
   [playerB, playerA, playerC, playerD, nullPlayer]"
  by (simp add: fillSlots_def scanSlot_def slotStep_def betterPoints_def upt5 replicate5
      player_fields)

lemma example_goals:
  "fillSlots betterGoals fullName [playerA, playerB, playerC, playerD, playerE] nullPlayer 3 =
   [playerC, playerB, playerA]"
  by (simp add: fillSlots_def scanSlot_def slotStep_def betterGoals_def upt3 replicate3
      player_fields)

lemma example_ppg:
  "fillSlots betterPPG fullName [playerA, playerB, playerC, playerD, playerE] nullPlayer 3 =
   [playerA, playerB, playerC]"
  by (simp add: fillSlots_def scanSlot_def slotStep_def betterPPG_def upt3 replicate3
      player_fields)

lemma example_goalies:
  "topGAAOf [starterTwenty, backupEight] = [starterTwenty, nullGoalie, nullGoalie]"
  "topGAAOf [] = [nullGoalie, nullGoalie, nullGoalie]"
proof -
  have mx: "GPmaxOf [starterTwenty, backupEight] = 20"
    by (simp add: GPmaxOf_def maxStep_def starterTwenty_def backupEight_def)
  have mn: "GPminOf [starterTwenty, backupEight] = 9"
    by (simp add: GPminOf_def mx Math_round_def)
  show "topGAAOf [starterTwenty, backupEight] = [starterTwenty, nullGoalie, nullGoalie]"
    unfolding topGAAOf_def mn
    by (simp add: gaaSlot_def gaaStep_def upt3 replicate3 nullGoalie_def
        starterTwenty_def backupEight_def)
  show "topGAAOf [] = [nullGoalie, nullGoalie, nullGoalie]"
    by (simp add: topGAAOf_def gaaSlot_def upt3 replicate3)
qed

lemma example_divisions:
  "processDivision shortSheets [eastGame] False = Inr None"
  "processDivision eastSheets [eastGame] False =
     Inr (Some \<lparr>topPoints = [playerB, playerA, playerC, playerD, nullPlayer],
                topGoals = [playerC, playerB, playerA],
                topPPG = [playerA, playerB, playerC],
                topGAA = [starterTwenty, nullGoalie, nullGoalie]\<rparr>)"
  "processDivision eastSheets [eastGame] True =
     Inr (Some \<lparr>topPoints = [playerB, playerA, playerC, playerD, nullPlayer],
                topGoals = [playerC, playerB, playerA],
                topPPG = [playerA, playerB, playerC],
                topGAA = [nullGoalie, nullGoalie, nullGoalie]\<rparr>)"
proof -
  show "processDivision shortSheets [eastGame] False = Inr None"
    by (rule processDivision_few) (simp_all add: example_pools)
  have five: "5 \<le> length (divisionPlayers eastSheets [eastGame] False)"
    "5 \<le> length (divisionPlayers eastSheets [eastGame] True)"
    by (simp_all add: example_pools)
  have games: "[eastGame] \<noteq> []" by simp
  show "processDivision eastSheets [eastGame] False =
     Inr (Some \<lparr>topPoints = [playerB, playerA, playerC, playerD, nullPlayer],
                topGoals = [playerC, playerB, playerA],
                topPPG = [playerA, playerB, playerC],
                topGAA = [starterTwenty, nullGoalie, nullGoalie]\<rparr>)"
    unfolding processDivision_lists [OF games five(1)]
    by (simp only: example_pools example_points example_goals example_ppg example_goalies)
  show "processDivision eastSheets [eastGame] True =
     Inr (Some \<lparr>topPoints = [playerB, playerA, playerC, playerD, nullPlayer],
                topGoals = [playerC, playerB, playerA],
                topPPG = [playerA, playerB, playerC],
                topGAA = [nullGoalie, nullGoalie, nullGoalie]\<rparr>)"
    unfolding processDivision_lists [OF games five(2)]
    by (simp only: example_pools example_points example_goals example_ppg example_goalies)
qed

subsection \<open>Top point scorers\<close>

text \<open>
  C3 (as stated, refuted). For the pool of the three players A, B and C the claim gives
  the first two slots of the points leaderboard, but \<open>processDivision\<close> returns before it
  builds any list for a division with fewer than five players: no slot is ever filled.
\<close>

theorem top_points_short_pool_counterexample:
  "divisionPlayers shortSheets [eastGame] False = [playerA, playerB, playerC] \<and>
   processDivision shortSheets [eastGame] False = Inr None"
  by (simp add: example_pools example_divisions)

text \<open>
  C3 (amended). A division with fewer than five players gets no leaderboard. For a
  division with five players or more, every slot \<open>m\<close> of the five-slot points leaderboard
  is filled by scanning the division's whole pool, slot after slot from five copies of
  the sentinel, and replacing the holder of the slot exactly when the candidate has
  strictly more points, or equal points and strictly more goals, and its full name is in
  none of the slots \<open>0..m-1\<close>; so no member of the pool whose name is in none of the
  earlier slots beats the final holder of a slot. For the pool of A (10 points, 5 goals),
  B (10 points, 7 goals), C (9 points, 9 goals), D (4 points) and E (no point) the first
  two slots are B and A.
\<close>

theorem top_points_slot_rule:
  "(m < length held \<longrightarrow>
      pointsStep m held cand =
        (if (points cand > points (held ! m) \<or>
             (points cand = points (held ! m) \<and> goals cand > goals (held ! m))) \<and>
            fullName cand \<notin> fullName ` set (take m held)
         then held[m := cand] else held)) \<and>
   (betterPoints cand holder \<longleftrightarrow>
      points cand > points holder \<or> (points cand = points holder \<and> goals cand > goals holder)) \<and>
   (divisionGames \<noteq> [] \<and> length (divisionPlayers sheets divisionGames isPlayoff) < 5 \<longrightarrow>
      processDivision sheets divisionGames isPlayoff = Inr None) \<and>
   (divisionGames \<noteq> [] \<and> 5 \<le> length (divisionPlayers sheets divisionGames isPlayoff) \<longrightarrow>
      (\<exists>built. processDivision sheets divisionGames isPlayoff = Inr (Some built) \<and>
         topPoints built =
           fillSlots betterPoints fullName (divisionPlayers sheets divisionGames isPlayoff)
             nullPlayer 5)) \<and>
   (processDivision sheets divisionGames isPlayoff = Inr (Some boards) \<longrightarrow>
      5 \<le> length (divisionPlayers sheets divisionGames isPlayoff) \<and>
      length (topPoints boards) = 5 \<and>
      topPoints boards =
        fillSlots betterPoints fullName (divisionPlayers sheets divisionGames isPlayoff)
          nullPlayer 5 \<and>
      (k < 5 \<and> x \<in> set (divisionPlayers sheets divisionGames isPlayoff) \<and>
       fullName x \<notin> fullName ` set (take k (topPoints boards)) \<longrightarrow>
         \<not> betterPoints x (topPoints boards ! k))) \<and>
   (\<exists>built. processDivision eastSheets [eastGame] False = Inr (Some built) \<and>
      take 2 (topPoints built) = [playerB, playerA])"
proof (intro conjI impI)
  let ?pool = "divisionPlayers sheets divisionGames isPlayoff"
  show "pointsStep m held cand =
        (if (points cand > points (held ! m) \<or>
             (points cand = points (held ! m) \<and> goals cand > goals (held ! m))) \<and>
            fullName cand \<notin> fullName ` set (take m held)
         then held[m := cand] else held)"
    if "m < length held"
    using that pointsStep_rule [of m held cand] by (simp add: slotStep_def betterPoints_def)
  show "betterPoints cand holder \<longleftrightarrow>
      points cand > points holder \<or> (points cand = points holder \<and> goals cand > goals holder)"
    by (simp add: betterPoints_def)
  show "processDivision sheets divisionGames isPlayoff = Inr None"
    if "divisionGames \<noteq> [] \<and> length ?pool < 5"
    using that by (simp add: processDivision_few)
  show "\<exists>built. processDivision sheets divisionGames isPlayoff = Inr (Some built) \<and>
      topPoints built = fillSlots betterPoints fullName ?pool nullPlayer 5"
    if "divisionGames \<noteq> [] \<and> 5 \<le> length ?pool"
    using that by (simp add: processDivision_lists)
  show "\<exists>built. processDivision eastSheets [eastGame] False = Inr (Some built) \<and>
      take 2 (topPoints built) = [playerB, playerA]"
    by (simp add: example_divisions)
next
  let ?pool = "divisionPlayers sheets divisionGames isPlayoff"
  assume built: "processDivision sheets divisionGames isPlayoff = Inr (Some boards)"
  show "5 \<le> length ?pool" using built by (rule processDivision_built)
  show board: "topPoints boards = fillSlots betterPoints fullName ?pool nullPlayer 5"
    using built by (rule processDivision_built)
  have closure: "\<And>c h. betterPoints c h \<Longrightarrow> h = nullPlayer \<or> True \<Longrightarrow> True" by simp
  show "length (topPoints boards) = 5"
    unfolding board by (rule fillSlots_result(1) [where elig = "\<lambda>e. True"]) simp
  show "\<not> betterPoints x (topPoints boards ! k)"
    if "k < 5 \<and> x \<in> set ?pool \<and> fullName x \<notin> fullName ` set (take k (topPoints boards))"
  proof -
    have irrefl: "\<And>c. \<not> betterPoints c c" by (simp add: betterPoints_def)
    have negtrans: "\<And>y c h. \<not> betterPoints y h \<Longrightarrow> betterPoints c h \<Longrightarrow> \<not> betterPoints y c"
      by (auto simp: betterPoints_def)
    from that have k: "k < 5" and x: "x \<in> set ?pool"
      and n: "fullName x \<notin> fullName ` set (take k (fillSlots betterPoints fullName ?pool nullPlayer 5))"
      by (simp_all add: board)
    from fillSlots_best [of betterPoints k 5 x ?pool fullName nullPlayer, OF irrefl negtrans k x n]
    show ?thesis by (simp add: board)
  qed
qed

theorem top_points_slot_rule_witness:
  "(1::nat) < length [playerB, nullPlayer, nullPlayer, nullPlayer, nullPlayer] \<and>
   pointsStep 1 [playerB, nullPlayer, nullPlayer, nullPlayer, nullPlayer] playerA =
     [playerB, playerA, nullPlayer, nullPlayer, nullPlayer] \<and>
   pointsStep 1 [playerB, nullPlayer, nullPlayer, nullPlayer, nullPlayer] playerB =
     [playerB, nullPlayer, nullPlayer, nullPlayer, nullPlayer] \<and>
   [eastGame] \<noteq> [] \<and>
   length (divisionPlayers shortSheets [eastGame] False) = 3 \<and>
   processDivision shortSheets [eastGame] False = Inr None \<and>
   length (divisionPlayers eastSheets [eastGame] False) = 5 \<and>
   processDivision eastSheets [eastGame] False =
     Inr (Some \<lparr>topPoints = [playerB, playerA, playerC, playerD, nullPlayer],
                topGoals = [playerC, playerB, playerA],
                topPPG = [playerA, playerB, playerC],
                topGAA = [starterTwenty, nullGoalie, nullGoalie]\<rparr>) \<and>
   fillSlots betterPoints fullName (divisionPlayers eastSheets [eastGame] False) nullPlayer 5 =
     [playerB, playerA, playerC, playerD, nullPlayer] \<and>
   playerA \<in> set (divisionPlayers eastSheets [eastGame] False) \<and>
   \<not> betterPoints playerA playerB \<and>
   playerE \<in> set (divisionPlayers eastSheets [eastGame] False) \<and>
   \<not> betterPoints playerE nullPlayer"
proof -
  let ?held = "[playerB, nullPlayer, nullPlayer, nullPlayer, nullPlayer]"
  let ?boards = "\<lparr>topPoints = [playerB, playerA, playerC, playerD, nullPlayer],
                topGoals = [playerC, playerB, playerA],
                topPPG = [playerA, playerB, playerC],
                topGAA = [starterTwenty, nullGoalie, nullGoalie]\<rparr>"
  let ?pool = "divisionPlayers eastSheets [eastGame] False"
  have names: "fullName playerA \<notin> fullName ` set (take 1 ?held)"
    "fullName playerB \<in> fullName ` set (take 1 ?held)"
    by (simp_all add: player_fields)
  have better: "points playerA > points (?held ! 1)"
    by (simp add: player_fields)
  have l: "(1::nat) < length ?held" by simp
  have a: "pointsStep 1 ?held playerA = [playerB, playerA, nullPlayer, nullPlayer, nullPlayer]"
    using top_points_slot_rule [where m = 1 and held = ?held and cand = playerA, THEN conjunct1]
      names(1) better
    by simp
  have b: "pointsStep 1 ?held playerB = ?held"
    using top_points_slot_rule [where m = 1 and held = ?held and cand = playerB, THEN conjunct1]
      names(2)
    by simp
  have g: "[eastGame] \<noteq> []" by simp
  have s3: "length (divisionPlayers shortSheets [eastGame] False) = 3"
    by (simp add: example_pools)
  have s: "processDivision shortSheets [eastGame] False = Inr None"
    using top_points_slot_rule [where sheets = shortSheets and divisionGames = "[eastGame]"
        and isPlayoff = False, THEN conjunct2, THEN conjunct2, THEN conjunct1] s3
    by simp
  have e5: "length ?pool = 5" by (simp add: example_pools)
  have e: "processDivision eastSheets [eastGame] False = Inr (Some ?boards)"
    by (rule example_divisions)
  note inst = top_points_slot_rule [where sheets = eastSheets and divisionGames = "[eastGame]"
      and isPlayoff = False and boards = ?boards and k = 0 and x = playerA,
      THEN conjunct2, THEN conjunct2, THEN conjunct2, THEN conjunct2, THEN conjunct1, THEN mp,
      OF e]
  note instE = top_points_slot_rule [where sheets = eastSheets and divisionGames = "[eastGame]"
      and isPlayoff = False and boards = ?boards and k = 4 and x = playerE,
      THEN conjunct2, THEN conjunct2, THEN conjunct2, THEN conjunct2, THEN conjunct1, THEN mp,
      OF e]
  have tp: "topPoints ?boards = [playerB, playerA, playerC, playerD, nullPlayer]" by simp
  from inst [THEN conjunct2, THEN conjunct2, THEN conjunct1]
  have f: "fillSlots betterPoints fullName ?pool nullPlayer 5 =
      [playerB, playerA, playerC, playerD, nullPlayer]"
    unfolding tp by (rule sym)
  have inA: "playerA \<in> set ?pool" and inE: "playerE \<in> set ?pool"
    by (simp_all add: example_pools)
  have freeA: "fullName playerA \<notin> fullName ` set (take 0 (topPoints ?boards))" by simp
  have freeE: "fullName playerE \<notin> fullName ` set (take 4 (topPoints ?boards))"
    by (simp add: player_fields)
  have k0: "(0::nat) < 5" and k4: "(4::nat) < 5" by simp_all
  from inst [THEN conjunct2, THEN conjunct2, THEN conjunct2, THEN mp,
      OF conjI [OF k0 conjI [OF inA freeA]]]
  have bA: "\<not> betterPoints playerA playerB" by simp
  from instE [THEN conjunct2, THEN conjunct2, THEN conjunct2, THEN mp,
      OF conjI [OF k4 conjI [OF inE freeE]]]
  have bE: "\<not> betterPoints playerE nullPlayer" by simp
  from l a b g s3 s e5 e f inA bA inE bE show ?thesis by (intro conjI)
qed

subsection \<open>The eligibility floor of the goals-against leaderboard\<close>

lemma maxStep_bounds:
  "a \<le> foldl maxStep a pool \<and> (\<forall>g \<in> set pool. GP g \<le> foldl maxStep a pool) \<and>
   (foldl maxStep a pool = a \<or> foldl maxStep a pool \<in> GP ` set pool)"
proof (induction pool arbitrary: a)
  case Nil
  show ?case by simp
next
  case (Cons g pool)
  from Cons.IH [of "maxStep a g"]
  have 1: "maxStep a g \<le> foldl maxStep (maxStep a g) pool"
    and 2: "\<forall>x \<in> set pool. GP x \<le> foldl maxStep (maxStep a g) pool"
    and 3: "foldl maxStep (maxStep a g) pool = maxStep a g \<or>
            foldl maxStep (maxStep a g) pool \<in> GP ` set pool"
    by simp_all
  have s: "a \<le> maxStep a g" "GP g \<le> maxStep a g" "maxStep a g = a \<or> maxStep a g = GP g"
    by (simp_all add: maxStep_def)
  from 1 s have "a \<le> foldl maxStep a (g # pool)" by simp
  moreover from 1 2 s have "\<forall>x \<in> set (g # pool). GP x \<le> foldl maxStep a (g # pool)" by simp
  moreover from 3 s(3) have "foldl maxStep a (g # pool) = a \<or>
      foldl maxStep a (g # pool) \<in> GP ` set (g # pool)"
    by auto
  ultimately show ?case by blast
qed

lemma maxStep_fold: "foldl maxStep a pool = Max (insert a (GP ` set pool))"
proof (rule sym, rule Max_eqI)
  show "finite (insert a (GP ` set pool))" by simp
  show "y \<le> foldl maxStep a pool" if "y \<in> insert a (GP ` set pool)" for y
    using that maxStep_bounds [of a pool] by auto
  show "foldl maxStep a pool \<in> insert a (GP ` set pool)"
    using maxStep_bounds [of a pool] by auto
qed

lemma GPmaxOf_Max: "GPmaxOf pool = Max (insert 0 (GP ` set pool))"
  by (simp add: GPmaxOf_def maxStep_fold)

lemma gaa_closure:
  "betterGAA GPmin c h \<Longrightarrow> h = nullGoalie \<or> (GAA h < 99 \<and> GPmin \<le> int (GP h)) \<Longrightarrow>
   GAA c < 99 \<and> GPmin \<le> int (GP c)"
  by (auto simp: betterGAA_def nullGoalie_def)

lemma topGAAOf_members:
  "g \<in> set (topGAAOf pool) \<Longrightarrow>
   g = nullGoalie \<or> (g \<in> set pool \<and> GAA g < 99 \<and> GPminOf pool \<le> int (GP g))"
  unfolding topGAAOf_rule
  by (rule fillSlots_result(2) [where better = "betterGAA (GPminOf pool)"]) (rule gaa_closure)

lemma GPmin_of_twenty: "GPmaxOf pool = 20 \<Longrightarrow> GPminOf pool = 9"
  by (simp add: GPminOf_def Math_round_def)

text \<open>
  C2 (as stated, refuted). With a pool maximum of ten games the ceiling of \<open>0.44 * 10\<close> is
  five, but the source rounds to the nearest integer and gets the floor four: the goalie
  with four games, below the ceiling, takes the first slot.
\<close>

theorem gaa_floor_ceiling_counterexample:
  "GPmaxOf [starterTen, backupFour] = 10 \<and>
   \<lceil>0.44 * real (GPmaxOf [starterTen, backupFour])\<rceil> = 5 \<and>
   GPminOf [starterTen, backupFour] = 4 \<and>
   GPminOf [starterTen, backupFour] \<noteq> \<lceil>0.44 * real (GPmaxOf [starterTen, backupFour])\<rceil> \<and>
   int (GP backupFour) < \<lceil>0.44 * real (GPmaxOf [starterTen, backupFour])\<rceil> \<and>
   topGAAOf [starterTen, backupFour] ! 0 = backupFour"
proof -
  have mx: "GPmaxOf [starterTen, backupFour] = 10"
    by (simp add: GPmaxOf_def maxStep_def starterTen_def backupFour_def)
  have mn: "GPminOf [starterTen, backupFour] = 4"
    by (simp add: GPminOf_def mx Math_round_def)
  have top: "topGAAOf [starterTen, backupFour] ! 0 = backupFour"
    unfolding topGAAOf_def mn
    by (simp add: gaaSlot_def gaaStep_def upt3 replicate3 nullGoalie_def
        starterTen_def backupFour_def)
  have gp: "GP backupFour = 4" by (simp add: backupFour_def)
  show ?thesis by (simp add: mx mn top gp)
qed

text \<open>
  C2 (amended). The eligibility floor is \<open>0.44\<close> times the pool's maximum of games played,
  rounded to the nearest integer (a half upwards). Every slot of the leaderboard holds
  the sentinel or a goalie of the pool with at least that many games, so a goalie with
  fewer games is in no slot, however low its average. With a pool maximum of twenty the
  floor is nine, and a goalie with eight games is in no slot.
\<close>

theorem gaa_floor_rounded:
  "GPmaxOf pool = Max (insert 0 (GP ` set pool)) \<and>
   GPminOf pool = \<lfloor>0.44 * real (GPmaxOf pool) + 1 / 2\<rfloor> \<and>
   (g \<in> set (topGAAOf pool) \<longrightarrow>
      g = nullGoalie \<or> (g \<in> set pool \<and> GPminOf pool \<le> int (GP g))) \<and>
   (int (GP g) < GPminOf pool \<and> g \<noteq> nullGoalie \<longrightarrow> g \<notin> set (topGAAOf pool)) \<and>
   (GPmaxOf pool = 20 \<longrightarrow> GPminOf pool = 9) \<and>
   (GPmaxOf pool = 20 \<and> GP g = 8 \<longrightarrow> g \<notin> set (topGAAOf pool))"
proof (intro conjI impI)
  show "GPmaxOf pool = Max (insert 0 (GP ` set pool))" by (rule GPmaxOf_Max)
  show "GPminOf pool = \<lfloor>0.44 * real (GPmaxOf pool) + 1 / 2\<rfloor>"
    by (simp add: GPminOf_def Math_round_def)
  show "g = nullGoalie \<or> (g \<in> set pool \<and> GPminOf pool \<le> int (GP g))"
    if "g \<in> set (topGAAOf pool)"
    using topGAAOf_members [OF that] by blast
  show "g \<notin> set (topGAAOf pool)" if "int (GP g) < GPminOf pool \<and> g \<noteq> nullGoalie"
    using that topGAAOf_members [of g pool] by auto
  show "GPminOf pool = 9" if "GPmaxOf pool = 20"
    using that by (rule GPmin_of_twenty)
  show "g \<notin> set (topGAAOf pool)" if "GPmaxOf pool = 20 \<and> GP g = 8"
  proof
    assume "g \<in> set (topGAAOf pool)"
    from topGAAOf_members [OF this] that GPmin_of_twenty [of pool]
    show False by (auto simp: nullGoalie_def)
  qed
qed

theorem gaa_floor_rounded_witness:
  "GPmaxOf [starterTwenty, backupEight] = 20 \<and> GP backupEight = 8 \<and>
   GPminOf [starterTwenty, backupEight] = 9 \<and>
   int (GP backupEight) < GPminOf [starterTwenty, backupEight] \<and>
   backupEight \<noteq> nullGoalie \<and>
   backupEight \<notin> set (topGAAOf [starterTwenty, backupEight]) \<and>
   starterTwenty \<in> set (topGAAOf [starterTwenty, backupEight]) \<and>
   starterTwenty \<in> set [starterTwenty, backupEight] \<and>
   GPminOf [starterTwenty, backupEight] \<le> int (GP starterTwenty)"
proof -
  have mx: "GPmaxOf [starterTwenty, backupEight] = 20"
    by (simp add: GPmaxOf_def maxStep_def starterTwenty_def backupEight_def)
  have mn: "GPminOf [starterTwenty, backupEight] = 9"
    by (simp add: GPminOf_def mx Math_round_def)
  have gp: "GP backupEight = 8" "GP starterTwenty = 20"
    by (simp_all add: backupEight_def starterTwenty_def)
  have ne: "backupEight \<noteq> nullGoalie" by (simp add: backupEight_def nullGoalie_def)
  have top: "topGAAOf [starterTwenty, backupEight] = [starterTwenty, nullGoalie, nullGoalie]"
    unfolding topGAAOf_def mn
    by (simp add: gaaSlot_def gaaStep_def upt3 replicate3 nullGoalie_def
        starterTwenty_def backupEight_def)
  have st: "starterTwenty \<in> set (topGAAOf [starterTwenty, backupEight])"
    by (simp add: top)
  show ?thesis
    using gaa_floor_rounded [of "[starterTwenty, backupEight]" backupEight]
      gaa_floor_rounded [of "[starterTwenty, backupEight]" starterTwenty] mx gp ne st
    by simp
qed

subsection \<open>Fixed size and sentinel padding\<close>

lemma points_closure:
  "betterPoints c h \<Longrightarrow> h = nullPlayer \<or> (0 < points h \<or> 0 < goals h) \<Longrightarrow>
   0 < points c \<or> 0 < goals c"
  by (auto simp: betterPoints_def nullPlayer_def)

lemma goals_closure:
  "betterGoals c h \<Longrightarrow> h = nullPlayer \<or> 0 < goals h \<Longrightarrow> 0 < goals c"
  by (auto simp: betterGoals_def nullPlayer_def)

lemma ppg_closure:
  "betterPPG c h \<Longrightarrow> h = nullPlayer \<or> 0 < ppg h \<Longrightarrow> 0 < ppg c"
  by (auto simp: betterPPG_def nullPlayer_def)

lemma points_board:
  "length (fillSlots betterPoints fullName players nullPlayer 5) = 5"
  "e \<in> set (fillSlots betterPoints fullName players nullPlayer 5) \<Longrightarrow>
     e = nullPlayer \<or> (e \<in> set players \<and> (0 < points e \<or> 0 < goals e))"
  "length (filter (\<lambda>e. e \<noteq> nullPlayer) (fillSlots betterPoints fullName players nullPlayer 5))
     \<le> length (filter (\<lambda>e. 0 < points e \<or> 0 < goals e) players)"
  by (rule fillSlots_result [where better = betterPoints
        and elig = "\<lambda>e. 0 < points e \<or> 0 < goals e"], rule points_closure, assumption+)+

lemma goals_board:
  "length (fillSlots betterGoals fullName players nullPlayer 3) = 3"
  "e \<in> set (fillSlots betterGoals fullName players nullPlayer 3) \<Longrightarrow>
     e = nullPlayer \<or> (e \<in> set players \<and> 0 < goals e)"
  "length (filter (\<lambda>e. e \<noteq> nullPlayer) (fillSlots betterGoals fullName players nullPlayer 3))
     \<le> length (filter (\<lambda>e. 0 < goals e) players)"
  by (rule fillSlots_result [where better = betterGoals and elig = "\<lambda>e. 0 < goals e"],
      rule goals_closure, assumption+)+

lemma ppg_board:
  "length (fillSlots betterPPG fullName players nullPlayer 3) = 3"
  "e \<in> set (fillSlots betterPPG fullName players nullPlayer 3) \<Longrightarrow>
     e = nullPlayer \<or> (e \<in> set players \<and> 0 < ppg e)"
  "length (filter (\<lambda>e. e \<noteq> nullPlayer) (fillSlots betterPPG fullName players nullPlayer 3))
     \<le> length (filter (\<lambda>e. 0 < ppg e) players)"
  by (rule fillSlots_result [where better = betterPPG and elig = "\<lambda>e. 0 < ppg e"],
      rule ppg_closure, assumption+)+

lemma gaa_board:
  "length (topGAAOf goalies) = 3"
  "g \<in> set (topGAAOf goalies) \<Longrightarrow>
     g = nullGoalie \<or> (g \<in> set goalies \<and> GAA g < 99 \<and> GPminOf goalies \<le> int (GP g))"
  "length (filter (\<lambda>g. g \<noteq> nullGoalie) (topGAAOf goalies))
     \<le> length (filter (\<lambda>g. GAA g < 99 \<and> GPminOf goalies \<le> int (GP g)) goalies)"
  unfolding topGAAOf_rule
  by (rule fillSlots_result [where better = "betterGAA (GPminOf goalies)"
        and elig = "\<lambda>g. GAA g < 99 \<and> GPminOf goalies \<le> int (GP g)"],
      rule gaa_closure, assumption+)+

text \<open>
  C7 (as stated, refuted). A division with three players has fewer eligible players than
  the points leaderboard has slots, and gets no leaderboard at all instead of five
  padded slots. A division with five players and no goalie gets three goalie sentinels,
  whose goals against and average are \<open>99\<close>, not zero.
\<close>

theorem goalie_sentinel_counterexample:
  "length (divisionPlayers shortSheets [eastGame] False) = 3 \<and>
   processDivision shortSheets [eastGame] False = Inr None \<and>
   divisionGoalies eastSheets [eastGame] True = [] \<and>
   processDivision eastSheets [eastGame] True =
     Inr (Some \<lparr>topPoints = [playerB, playerA, playerC, playerD, nullPlayer],
                topGoals = [playerC, playerB, playerA],
                topPPG = [playerA, playerB, playerC],
                topGAA = [nullGoalie, nullGoalie, nullGoalie]\<rparr>) \<and>
   GAA nullGoalie = 99 \<and> GA nullGoalie = 99 \<and> GAA nullGoalie \<noteq> 0 \<and> GA nullGoalie \<noteq> 0"
  by (simp add: example_pools example_divisions nullGoalie_def)

text \<open>
  C7 (amended). Called with the games of a division (a non-empty list; an empty list
  raises a \<open>TypeError\<close>), \<open>processDivision\<close> builds no leaderboard when the division has
  fewer than five players, and returns without an error. When the division has five
  players or more it builds all four: the points leaderboard has five slots and the
  goals, points-per-game and goals-against leaderboards have three. Each is filled slot
  after slot from copies of its sentinel, so every slot holds the sentinel or an eligible
  member of the pool, and no more slots are filled than the pool has eligible members: a
  pool with fewer eligible members than slots leaves the other slots to the sentinel, and
  a division without goalies gets three goalie sentinels. The player sentinel has no name
  fields and all its numbers are zero; the goalie sentinel has no name fields, zero games
  played, and goals against and average equal to \<open>99\<close>.
\<close>

theorem leaderboards_padded:
  "processDivision sheets [] isPlayoff = Inl TypeError \<and>
   (divisionGames \<noteq> [] \<and> length (divisionPlayers sheets divisionGames isPlayoff) < 5 \<longrightarrow>
      processDivision sheets divisionGames isPlayoff = Inr None) \<and>
   (divisionGames \<noteq> [] \<and> 5 \<le> length (divisionPlayers sheets divisionGames isPlayoff) \<longrightarrow>
      (\<exists>built. processDivision sheets divisionGames isPlayoff = Inr (Some built))) \<and>
   (processDivision sheets divisionGames isPlayoff = Inr (Some boards) \<longrightarrow>
      divisionGames \<noteq> [] \<and>
      5 \<le> length (divisionPlayers sheets divisionGames isPlayoff) \<and>
      length (topPoints boards) = 5 \<and> length (topGoals boards) = 3 \<and>
      length (topPPG boards) = 3 \<and> length (topGAA boards) = 3 \<and>
      topPoints boards =
        fillSlots betterPoints fullName (divisionPlayers sheets divisionGames isPlayoff)
          nullPlayer 5 \<and>
      topGoals boards =
        fillSlots betterGoals fullName (divisionPlayers sheets divisionGames isPlayoff)
          nullPlayer 3 \<and>
      topPPG boards =
        fillSlots betterPPG fullName (divisionPlayers sheets divisionGames isPlayoff)
          nullPlayer 3 \<and>
      topGAA boards =
        fillSlots (betterGAA (GPminOf (divisionGoalies sheets divisionGames isPlayoff))) fullName
          (divisionGoalies sheets divisionGames isPlayoff) nullGoalie 3 \<and>
      (e \<in> set (topPoints boards) \<longrightarrow>
         e = nullPlayer \<or>
         (e \<in> set (divisionPlayers sheets divisionGames isPlayoff) \<and>
          (0 < points e \<or> 0 < goals e))) \<and>
      (e \<in> set (topGoals boards) \<longrightarrow>
         e = nullPlayer \<or>
         (e \<in> set (divisionPlayers sheets divisionGames isPlayoff) \<and> 0 < goals e)) \<and>
      (e \<in> set (topPPG boards) \<longrightarrow>
         e = nullPlayer \<or>
         (e \<in> set (divisionPlayers sheets divisionGames isPlayoff) \<and> 0 < ppg e)) \<and>
      (g \<in> set (topGAA boards) \<longrightarrow>
         g = nullGoalie \<or>
         (g \<in> set (divisionGoalies sheets divisionGames isPlayoff) \<and> GAA g < 99 \<and>
          GPminOf (divisionGoalies sheets divisionGames isPlayoff) \<le> int (GP g))) \<and>
      length (filter (\<lambda>e. e \<noteq> nullPlayer) (topPoints boards))
        \<le> length (filter (\<lambda>e. 0 < points e \<or> 0 < goals e)
             (divisionPlayers sheets divisionGames isPlayoff)) \<and>
      length (filter (\<lambda>e. e \<noteq> nullPlayer) (topGoals boards))
        \<le> length (filter (\<lambda>e. 0 < goals e) (divisionPlayers sheets divisionGames isPlayoff)) \<and>
      length (filter (\<lambda>e. e \<noteq> nullPlayer) (topPPG boards))
        \<le> length (filter (\<lambda>e. 0 < ppg e) (divisionPlayers sheets divisionGames isPlayoff)) \<and>
      length (filter (\<lambda>g. g \<noteq> nullGoalie) (topGAA boards))
        \<le> length (filter
             (\<lambda>g. GAA g < 99 \<and>
                  GPminOf (divisionGoalies sheets divisionGames isPlayoff) \<le> int (GP g))
             (divisionGoalies sheets divisionGames isPlayoff)) \<and>
      (divisionGoalies sheets divisionGames isPlayoff = [] \<longrightarrow>
         topGAA boards = replicate 3 nullGoalie)) \<and>
   firstName nullPlayer = None \<and> lastName nullPlayer = None \<and> teamName nullPlayer = None \<and>
   divLabel nullPlayer = None \<and> fullName nullPlayer = None \<and>
   goals nullPlayer = 0 \<and> assists nullPlayer = 0 \<and> points nullPlayer = 0 \<and> ppg nullPlayer = 0 \<and>
   firstName nullGoalie = None \<and> lastName nullGoalie = None \<and> teamName nullGoalie = None \<and>
   divLabel nullGoalie = None \<and> fullName nullGoalie = None \<and>
   GA nullGoalie = 99 \<and> GAA nullGoalie = 99 \<and> GP nullGoalie = 0"
proof -
  let ?players = "divisionPlayers sheets divisionGames isPlayoff"
  let ?goalies = "divisionGoalies sheets divisionGames isPlayoff"
  have none: "processDivision sheets [] isPlayoff = Inl TypeError"
    by (rule processDivision_no_games)
  have few: "divisionGames \<noteq> [] \<and> length ?players < 5 \<longrightarrow>
      processDivision sheets divisionGames isPlayoff = Inr None"
    by (simp add: processDivision_few)
  have some: "divisionGames \<noteq> [] \<and> 5 \<le> length ?players \<longrightarrow>
      (\<exists>built. processDivision sheets divisionGames isPlayoff = Inr (Some built))"
    by (simp add: processDivision_lists)
  have built: "divisionGames \<noteq> [] \<and>
      5 \<le> length ?players \<and>
      length (topPoints boards) = 5 \<and> length (topGoals boards) = 3 \<and>
      length (topPPG boards) = 3 \<and> length (topGAA boards) = 3 \<and>
      topPoints boards = fillSlots betterPoints fullName ?players nullPlayer 5 \<and>
      topGoals boards = fillSlots betterGoals fullName ?players nullPlayer 3 \<and>
      topPPG boards = fillSlots betterPPG fullName ?players nullPlayer 3 \<and>
      topGAA boards =
        fillSlots (betterGAA (GPminOf ?goalies)) fullName ?goalies nullGoalie 3 \<and>
      (e \<in> set (topPoints boards) \<longrightarrow>
         e = nullPlayer \<or> (e \<in> set ?players \<and> (0 < points e \<or> 0 < goals e))) \<and>
      (e \<in> set (topGoals boards) \<longrightarrow> e = nullPlayer \<or> (e \<in> set ?players \<and> 0 < goals e)) \<and>
      (e \<in> set (topPPG boards) \<longrightarrow> e = nullPlayer \<or> (e \<in> set ?players \<and> 0 < ppg e)) \<and>
      (g \<in> set (topGAA boards) \<longrightarrow>
         g = nullGoalie \<or>
         (g \<in> set ?goalies \<and> GAA g < 99 \<and> GPminOf ?goalies \<le> int (GP g))) \<and>
      length (filter (\<lambda>e. e \<noteq> nullPlayer) (topPoints boards))
        \<le> length (filter (\<lambda>e. 0 < points e \<or> 0 < goals e) ?players) \<and>
      length (filter (\<lambda>e. e \<noteq> nullPlayer) (topGoals boards))
        \<le> length (filter (\<lambda>e. 0 < goals e) ?players) \<and>
      length (filter (\<lambda>e. e \<noteq> nullPlayer) (topPPG boards))
        \<le> length (filter (\<lambda>e. 0 < ppg e) ?players) \<and>
      length (filter (\<lambda>g. g \<noteq> nullGoalie) (topGAA boards))
        \<le> length (filter (\<lambda>g. GAA g < 99 \<and> GPminOf ?goalies \<le> int (GP g)) ?goalies) \<and>
      (?goalies = [] \<longrightarrow> topGAA boards = replicate 3 nullGoalie)"
    if b: "processDivision sheets divisionGames isPlayoff = Inr (Some boards)"
  proof -
    note facts = processDivision_built [OF b]
    have tp: "topPoints boards = fillSlots betterPoints fullName ?players nullPlayer 5"
      and tg: "topGoals boards = fillSlots betterGoals fullName ?players nullPlayer 3"
      and tq: "topPPG boards = fillSlots betterPPG fullName ?players nullPlayer 3"
      and ta: "topGAA boards = topGAAOf ?goalies"
      by (rule facts)+
    have ta': "topGAA boards =
        fillSlots (betterGAA (GPminOf ?goalies)) fullName ?goalies nullGoalie 3"
      unfolding ta by (rule topGAAOf_rule)
    have sizes: "length (topPoints boards) = 5 \<and> length (topGoals boards) = 3 \<and>
        length (topPPG boards) = 3 \<and> length (topGAA boards) = 3"
      unfolding tp tg tq ta
      using points_board(1) goals_board(1) ppg_board(1) gaa_board(1) by blast
    have members: "(e \<in> set (topPoints boards) \<longrightarrow>
          e = nullPlayer \<or> (e \<in> set ?players \<and> (0 < points e \<or> 0 < goals e))) \<and>
        (e \<in> set (topGoals boards) \<longrightarrow> e = nullPlayer \<or> (e \<in> set ?players \<and> 0 < goals e)) \<and>
        (e \<in> set (topPPG boards) \<longrightarrow> e = nullPlayer \<or> (e \<in> set ?players \<and> 0 < ppg e)) \<and>
        (g \<in> set (topGAA boards) \<longrightarrow>
          g = nullGoalie \<or>
          (g \<in> set ?goalies \<and> GAA g < 99 \<and> GPminOf ?goalies \<le> int (GP g)))"
      unfolding tp tg tq ta
      using points_board(2) [of e ?players] goals_board(2) [of e ?players]
        ppg_board(2) [of e ?players] gaa_board(2) [of g ?goalies]
      by blast
    have counts: "length (filter (\<lambda>e. e \<noteq> nullPlayer) (topPoints boards))
          \<le> length (filter (\<lambda>e. 0 < points e \<or> 0 < goals e) ?players) \<and>
        length (filter (\<lambda>e. e \<noteq> nullPlayer) (topGoals boards))
          \<le> length (filter (\<lambda>e. 0 < goals e) ?players) \<and>
        length (filter (\<lambda>e. e \<noteq> nullPlayer) (topPPG boards))
          \<le> length (filter (\<lambda>e. 0 < ppg e) ?players) \<and>
        length (filter (\<lambda>g. g \<noteq> nullGoalie) (topGAA boards))
          \<le> length (filter (\<lambda>g. GAA g < 99 \<and> GPminOf ?goalies \<le> int (GP g)) ?goalies)"
      unfolding tp tg tq ta
      using points_board(3) [of ?players] goals_board(3) [of ?players]
        ppg_board(3) [of ?players] gaa_board(3) [of ?goalies]
      by blast
    have empty: "?goalies = [] \<longrightarrow> topGAA boards = replicate 3 nullGoalie"
      unfolding ta by (simp add: example_goalies(2) replicate3)
    note s = sizes [THEN conjunct1] sizes [THEN conjunct2, THEN conjunct1]
      sizes [THEN conjunct2, THEN conjunct2, THEN conjunct1]
      sizes [THEN conjunct2, THEN conjunct2, THEN conjunct2]
    note m = members [THEN conjunct1] members [THEN conjunct2, THEN conjunct1]
      members [THEN conjunct2, THEN conjunct2, THEN conjunct1]
      members [THEN conjunct2, THEN conjunct2, THEN conjunct2]
    note c = counts [THEN conjunct1] counts [THEN conjunct2, THEN conjunct1]
      counts [THEN conjunct2, THEN conjunct2, THEN conjunct1]
      counts [THEN conjunct2, THEN conjunct2, THEN conjunct2]
    from facts(1) facts(2) s tp tg tq ta' m c empty show ?thesis
      by (intro conjI)
  qed
  have sentinels: "firstName nullPlayer = None \<and> lastName nullPlayer = None \<and>
      teamName nullPlayer = None \<and> divLabel nullPlayer = None \<and> fullName nullPlayer = None \<and>
      goals nullPlayer = 0 \<and> assists nullPlayer = 0 \<and> points nullPlayer = 0 \<and>
      ppg nullPlayer = 0 \<and>
      firstName nullGoalie = None \<and> lastName nullGoalie = None \<and> teamName nullGoalie = None \<and>
      divLabel nullGoalie = None \<and> fullName nullGoalie = None \<and>
      GA nullGoalie = 99 \<and> GAA nullGoalie = 99 \<and> GP nullGoalie = 0"
    by (simp add: nullPlayer_def nullGoalie_def)
  from built have built': "processDivision sheets divisionGames isPlayoff = Inr (Some boards) \<longrightarrow>
      divisionGames \<noteq> [] \<and>
      5 \<le> length ?players \<and>
      length (topPoints boards) = 5 \<and> length (topGoals boards) = 3 \<and>
      length (topPPG boards) = 3 \<and> length (topGAA boards) = 3 \<and>
      topPoints boards = fillSlots betterPoints fullName ?players nullPlayer 5 \<and>
      topGoals boards = fillSlots betterGoals fullName ?players nullPlayer 3 \<and>
      topPPG boards = fillSlots betterPPG fullName ?players nullPlayer 3 \<and>
      topGAA boards =
        fillSlots (betterGAA (GPminOf ?goalies)) fullName ?goalies nullGoalie 3 \<and>
      (e \<in> set (topPoints boards) \<longrightarrow>
         e = nullPlayer \<or> (e \<in> set ?players \<and> (0 < points e \<or> 0 < goals e))) \<and>
      (e \<in> set (topGoals boards) \<longrightarrow> e = nullPlayer \<or> (e \<in> set ?players \<and> 0 < goals e)) \<and>
      (e \<in> set (topPPG boards) \<longrightarrow> e = nullPlayer \<or> (e \<in> set ?players \<and> 0 < ppg e)) \<and>
      (g \<in> set (topGAA boards) \<longrightarrow>
         g = nullGoalie \<or>
         (g \<in> set ?goalies \<and> GAA g < 99 \<and> GPminOf ?goalies \<le> int (GP g))) \<and>
      length (filter (\<lambda>e. e \<noteq> nullPlayer) (topPoints boards))
        \<le> length (filter (\<lambda>e. 0 < points e \<or> 0 < goals e) ?players) \<and>
      length (filter (\<lambda>e. e \<noteq> nullPlayer) (topGoals boards))
        \<le> length (filter (\<lambda>e. 0 < goals e) ?players) \<and>
      length (filter (\<lambda>e. e \<noteq> nullPlayer) (topPPG boards))
        \<le> length (filter (\<lambda>e. 0 < ppg e) ?players) \<and>
      length (filter (\<lambda>g. g \<noteq> nullGoalie) (topGAA boards))
        \<le> length (filter (\<lambda>g. GAA g < 99 \<and> GPminOf ?goalies \<le> int (GP g)) ?goalies) \<and>
      (?goalies = [] \<longrightarrow> topGAA boards = replicate 3 nullGoalie)"
    by (rule impI)
  show ?thesis
    by (rule conjI [OF none conjI [OF few conjI [OF some conjI [OF built' sentinels]]]])
qed

theorem leaderboards_padded_witness:
  "[eastGame] \<noteq> [] \<and>
   length (divisionPlayers shortSheets [eastGame] False) = 3 \<and>
   processDivision shortSheets [eastGame] False = Inr None \<and>
   length (divisionPlayers eastSheets [eastGame] False) = 5 \<and>
   processDivision eastSheets [eastGame] False =
     Inr (Some \<lparr>topPoints = [playerB, playerA, playerC, playerD, nullPlayer],
                topGoals = [playerC, playerB, playerA],
                topPPG = [playerA, playerB, playerC],
                topGAA = [starterTwenty, nullGoalie, nullGoalie]\<rparr>) \<and>
   fillSlots betterPoints fullName (divisionPlayers eastSheets [eastGame] False) nullPlayer 5 =
     [playerB, playerA, playerC, playerD, nullPlayer] \<and>
   fillSlots betterGoals fullName (divisionPlayers eastSheets [eastGame] False) nullPlayer 3 =
     [playerC, playerB, playerA] \<and>
   playerD \<in> set [playerB, playerA, playerC, playerD, nullPlayer] \<and>
   playerD \<noteq> nullPlayer \<and>
   playerD \<in> set (divisionPlayers eastSheets [eastGame] False) \<and>
   (0 < points playerD \<or> 0 < goals playerD) \<and>
   starterTwenty \<in> set [starterTwenty, nullGoalie, nullGoalie] \<and>
   starterTwenty \<noteq> nullGoalie \<and>
   starterTwenty \<in> set (divisionGoalies eastSheets [eastGame] False) \<and>
   GPminOf (divisionGoalies eastSheets [eastGame] False) \<le> int (GP starterTwenty) \<and>
   length (filter (\<lambda>e. e \<noteq> nullPlayer) [playerB, playerA, playerC, playerD, nullPlayer])
     \<le> length (filter (\<lambda>e. 0 < points e \<or> 0 < goals e)
          (divisionPlayers eastSheets [eastGame] False)) \<and>
   divisionGoalies eastSheets [eastGame] True = [] \<and>
   processDivision eastSheets [eastGame] True =
     Inr (Some \<lparr>topPoints = [playerB, playerA, playerC, playerD, nullPlayer],
                topGoals = [playerC, playerB, playerA],
                topPPG = [playerA, playerB, playerC],
                topGAA = [nullGoalie, nullGoalie, nullGoalie]\<rparr>) \<and>
   [nullGoalie, nullGoalie, nullGoalie] = replicate 3 nullGoalie"
proof -
  let ?regular = "\<lparr>topPoints = [playerB, playerA, playerC, playerD, nullPlayer],
                topGoals = [playerC, playerB, playerA],
                topPPG = [playerA, playerB, playerC],
                topGAA = [starterTwenty, nullGoalie, nullGoalie]\<rparr>"
  let ?playoff = "\<lparr>topPoints = [playerB, playerA, playerC, playerD, nullPlayer],
                topGoals = [playerC, playerB, playerA],
                topPPG = [playerA, playerB, playerC],
                topGAA = [nullGoalie, nullGoalie, nullGoalie]\<rparr>"
  have g: "[eastGame] \<noteq> []" by simp
  have s3: "length (divisionPlayers shortSheets [eastGame] False) = 3"
    by (simp add: example_pools)
  have s: "processDivision shortSheets [eastGame] False = Inr None"
    using leaderboards_padded [where sheets = shortSheets and divisionGames = "[eastGame]"
        and isPlayoff = False, THEN conjunct2, THEN conjunct1] s3
    by simp
  have e5: "length (divisionPlayers eastSheets [eastGame] False) = 5"
    by (simp add: example_pools)
  have r: "processDivision eastSheets [eastGame] False = Inr (Some ?regular)"
    by (rule example_divisions)
  have p: "processDivision eastSheets [eastGame] True = Inr (Some ?playoff)"
    by (rule example_divisions)
  note inst = leaderboards_padded [where sheets = eastSheets and divisionGames = "[eastGame]"
      and isPlayoff = False and boards = ?regular and e = playerD and g = starterTwenty,
      THEN conjunct2, THEN conjunct2, THEN conjunct2, THEN conjunct1, THEN mp, OF r]
  note instp = leaderboards_padded [where sheets = eastSheets and divisionGames = "[eastGame]"
      and isPlayoff = True and boards = ?playoff,
      THEN conjunct2, THEN conjunct2, THEN conjunct2, THEN conjunct1, THEN mp, OF p]
  have fields: "topPoints ?regular = [playerB, playerA, playerC, playerD, nullPlayer]"
    "topGoals ?regular = [playerC, playerB, playerA]"
    "topGAA ?regular = [starterTwenty, nullGoalie, nullGoalie]"
    "topGAA ?playoff = [nullGoalie, nullGoalie, nullGoalie]"
    by simp_all
  from inst [THEN conjunct2, THEN conjunct2, THEN conjunct2, THEN conjunct2, THEN conjunct2, THEN conjunct2, THEN conjunct1]
  have fp: "fillSlots betterPoints fullName (divisionPlayers eastSheets [eastGame] False)
      nullPlayer 5 = [playerB, playerA, playerC, playerD, nullPlayer]"
    unfolding fields by (rule sym)
  from inst [THEN conjunct2, THEN conjunct2, THEN conjunct2, THEN conjunct2, THEN conjunct2, THEN conjunct2, THEN conjunct2, THEN conjunct1]
  have fg: "fillSlots betterGoals fullName (divisionPlayers eastSheets [eastGame] False)
      nullPlayer 3 = [playerC, playerB, playerA]"
    unfolding fields by (rule sym)
  have dIn: "playerD \<in> set [playerB, playerA, playerC, playerD, nullPlayer]" by simp
  have dNe: "playerD \<noteq> nullPlayer" by (simp add: playerD_def nullPlayer_def)
  have dIn': "playerD \<in> set (topPoints ?regular)" unfolding fields by (rule dIn)
  note dStep = inst [THEN conjunct2, THEN conjunct2, THEN conjunct2, THEN conjunct2, THEN conjunct2, THEN conjunct2, THEN conjunct2, THEN conjunct2, THEN conjunct2, THEN conjunct2, THEN conjunct1, THEN mp, OF dIn']
  have dEl: "playerD \<in> set (divisionPlayers eastSheets [eastGame] False) \<and>
      (0 < points playerD \<or> 0 < goals playerD)"
    by (rule disjE [OF dStep]) (simp_all add: dNe)
  have gIn: "starterTwenty \<in> set [starterTwenty, nullGoalie, nullGoalie]" by simp
  have gNe: "starterTwenty \<noteq> nullGoalie" by (simp add: starterTwenty_def nullGoalie_def)
  have gIn': "starterTwenty \<in> set (topGAA ?regular)" unfolding fields by (rule gIn)
  note gStep = inst [THEN conjunct2, THEN conjunct2, THEN conjunct2, THEN conjunct2, THEN conjunct2, THEN conjunct2, THEN conjunct2, THEN conjunct2, THEN conjunct2, THEN conjunct2, THEN conjunct2, THEN conjunct2, THEN conjunct2, THEN conjunct1, THEN mp, OF gIn']
  have gEl: "starterTwenty \<in> set (divisionGoalies eastSheets [eastGame] False) \<and>
      GPminOf (divisionGoalies eastSheets [eastGame] False) \<le> int (GP starterTwenty)"
    by (rule disjE [OF gStep]) (simp_all add: gNe)
  from inst [THEN conjunct2, THEN conjunct2, THEN conjunct2, THEN conjunct2, THEN conjunct2, THEN conjunct2, THEN conjunct2, THEN conjunct2, THEN conjunct2, THEN conjunct2, THEN conjunct2, THEN conjunct2, THEN conjunct2, THEN conjunct2, THEN conjunct1]
  have cnt: "length (filter (\<lambda>e. e \<noteq> nullPlayer)
        [playerB, playerA, playerC, playerD, nullPlayer])
      \<le> length (filter (\<lambda>e. 0 < points e \<or> 0 < goals e)
           (divisionPlayers eastSheets [eastGame] False))"
    unfolding fields .
  have noGoalies: "divisionGoalies eastSheets [eastGame] True = []"
    by (simp add: example_pools)
  from instp [THEN conjunct2, THEN conjunct2, THEN conjunct2, THEN conjunct2, THEN conjunct2, THEN conjunct2, THEN conjunct2, THEN conjunct2, THEN conjunct2, THEN conjunct2, THEN conjunct2, THEN conjunct2, THEN conjunct2, THEN conjunct2, THEN conjunct2, THEN conjunct2, THEN conjunct2, THEN conjunct2, THEN mp, OF noGoalies]
  have pad: "[nullGoalie, nullGoalie, nullGoalie] = replicate 3 nullGoalie"
    unfolding fields .
  from g s3 s e5 r fp fg dIn dNe dEl [THEN conjunct1] dEl [THEN conjunct2] gIn gNe
    gEl [THEN conjunct1] gEl [THEN conjunct2] cnt noGoalies p pad
  show ?thesis by (intro conjI)
qed


end
